theory Spec2Isabelle
  imports Main "HOL-Library.Multiset" "HOL-Library.Char_ord" "HOL-Library.List_Lexorder"
    "HOL-Library.Sublist"
begin

section \<open>Python values used by spider.py\<close>

text \<open>
  Text is held as its UTF-8 encoding: a Python \<open>str\<close> is a \<open>string\<close> whose
  characters are the bytes of the encoding. Concatenation, substring tests, splitting on
  an ASCII character, replacing ASCII characters and the comparison of two strings read
  the same on the bytes as on the code points.
\<close>

datatype py_error = ZeroDivisionError

subsection \<open>datetime\<close>

text \<open>
  A \<open>datetime.datetime\<close> value: its calendar fields and \<open>tzinfo\<close>, held as the UTC
  offset in microseconds (\<open>None\<close> for a naive value).
\<close>

record datetime =
  year :: int
  month :: int
  day :: int
  hour :: int
  minute :: int
  second :: int
  microsecond :: int
  tzinfo :: "int option"

definition is_leap :: "int \<Rightarrow> bool" where
  "is_leap y = (y mod 4 = 0 \<and> (y mod 100 \<noteq> 0 \<or> y mod 400 = 0))"

definition days_before_year :: "int \<Rightarrow> int" where
  "days_before_year y =
     (let p = y - 1 in p * 365 + p div 4 - p div 100 + p div 400)"

definition days_before_month :: "int \<Rightarrow> int \<Rightarrow> int" where
  "days_before_month y m =
     (if m = 1 then 0 else if m = 2 then 31 else if m = 3 then 59 else if m = 4 then 90
      else if m = 5 then 120 else if m = 6 then 151 else if m = 7 then 181
      else if m = 8 then 212 else if m = 9 then 243 else if m = 10 then 273
      else if m = 11 then 304 else 334)
     + (if m > 2 \<and> is_leap y then 1 else 0)"

definition ymd2ord :: "int \<Rightarrow> int \<Rightarrow> int \<Rightarrow> int" where
  "ymd2ord y m d = days_before_year y + days_before_month y m + d"

text \<open>Microseconds from the start of the proleptic Gregorian calendar, on the value's own clock.\<close>

definition wall_micros :: "datetime \<Rightarrow> int" where
  "wall_micros dt =
     (((ymd2ord (year dt) (month dt) (day dt) * 24 + hour dt) * 60 + minute dt) * 60
        + second dt) * 1000000 + microsecond dt"

text \<open>
  \<open>a > b\<close> on two datetimes. Two naive values compare on their fields, two aware values
  after their UTC offsets are subtracted; a naive value against an aware one raises
  \<open>TypeError\<close>, which is \<open>None\<close> here.
\<close>

definition dt_gt :: "datetime \<Rightarrow> datetime \<Rightarrow> bool option" where
  "dt_gt a b =
     (case (tzinfo a, tzinfo b) of
        (None, None) \<Rightarrow> Some (wall_micros a > wall_micros b)
      | (Some oa, Some ob) \<Rightarrow> Some (wall_micros a - oa > wall_micros b - ob)
      | _ \<Rightarrow> None)"

text \<open>\<open>dt.replace(tzinfo=datetime.timezone.utc)\<close>\<close>

definition replace_tzinfo_utc :: "datetime \<Rightarrow> datetime" where
  "replace_tzinfo_utc dt = dt\<lparr>tzinfo := Some 0\<rparr>"

text \<open>
  The parsing and formatting functions of Python's \<open>datetime\<close> module are not code of
  this program: they are parameters of the model. \<open>strptime lib s fmt\<close> and
  \<open>fromisoformat lib s\<close> are \<open>None\<close> where Python raises \<open>ValueError\<close>.
\<close>

record datetime_lib =
  strptime :: "string \<Rightarrow> string \<Rightarrow> datetime option"
  fromisoformat :: "string \<Rightarrow> datetime option"
  strftime :: "datetime \<Rightarrow> string \<Rightarrow> string"

subsection \<open>The records of the API\<close>

text \<open>
  A topic is a JSON object; the model keeps the keys the program reads. \<open>None\<close> is an
  absent key. \<open>topic_id\<close> is held as the text that formatting it produces. A talk (or
  question) keeps its owner and the names of its other keys: it is the empty dict, which
  Python reads as false, when it has neither.
\<close>

record user =
  name :: "string option"

record talk =
  owner :: "user option"
  other_keys :: "string list"

record topic =
  topic_id :: "string option"
  create_time :: "string option"
  talk :: "talk option"
  question :: "talk option"

subsection \<open>HTTP\<close>

text \<open>
  What one call of \<open>requests.get\<close> followed by \<open>response.json()\<close> can give:
  an exception (\<open>Raises\<close>: no connection, a timeout, a body that is not JSON), or a response
  with its status code and its JSON body. In a body, \<open>None\<close> is a missing \<open>resp_data\<close>
  key; in \<open>resp_data\<close>, \<open>None\<close> is a missing \<open>topics\<close> key.
\<close>

datatype resp_data = RespData "topic list option"
datatype body = Body "resp_data option"
datatype response = Response int "body option"
datatype attempt = Raises | Returns response

text \<open>
  The request parameters (\<open>count\<close> and the optional \<open>end_time\<close>), and the network: the
  outcome of the i-th request of one call of \<open>get_topics\<close>, given its parameters.
\<close>

type_synonym params = "int \<times> string option"
type_synonym http = "params \<Rightarrow> nat \<Rightarrow> attempt"

section \<open>The Page Fetcher: get_topics\<close>

text \<open>
  The loop \<open>while retries <= max_retries\<close> of \<open>get_topics\<close>. The result is what the
  function returns (\<open>None\<close> for Python's \<open>None\<close>) and the number of requests it made.
  Every branch that fails returns \<open>None\<close> when \<open>retries >= max_retries\<close> and otherwise
  adds one to \<open>retries\<close> and goes round again, as the source writes it four times.
  Logging, the copy of the response saved under \<open>response/\<close> (whose failure the source
  catches) and \<open>time.sleep\<close> change no result and are left out.
\<close>

function get_topics_loop :: "http \<Rightarrow> params \<Rightarrow> int \<Rightarrow> int \<Rightarrow> topic list option \<times> nat" where
  "get_topics_loop requests_get ps max_retries retries =
     (if retries \<le> max_retries then
        (case requests_get ps (nat retries) of
           Returns (Response status_code js) \<Rightarrow>
             (if status_code = 200 then
                (case js of
                   Some (Body None) \<Rightarrow>
                     (if retries \<ge> max_retries then (None, nat retries + 1)
                      else get_topics_loop requests_get ps max_retries (retries + 1))
                 | Some (Body (Some (RespData ts))) \<Rightarrow>
                     (if ts = None \<or> ts = Some [] then
                        (if retries \<ge> max_retries then (None, nat retries + 1)
                         else get_topics_loop requests_get ps max_retries (retries + 1))
                      else (ts, nat retries + 1))
                 | None \<Rightarrow>
                     (if retries \<ge> max_retries then (None, nat retries + 1)
                      else get_topics_loop requests_get ps max_retries (retries + 1)))
              else
                (if retries \<ge> max_retries then (None, nat retries + 1)
                 else get_topics_loop requests_get ps max_retries (retries + 1)))
         | Raises \<Rightarrow>
             (if retries \<ge> max_retries then (None, nat retries + 1)
              else get_topics_loop requests_get ps max_retries (retries + 1)))
      else (None, nat retries))"
  by pat_completeness auto
termination
  by (relation "measure (\<lambda>(requests_get, ps, max_retries, retries). nat (max_retries + 1 - retries))")
    auto

declare get_topics_loop.simps [simp del]

text \<open>
  \<open>get_topics(count, end_time, max_retries)\<close>: \<open>end_time\<close> goes into the request only
  when it is set and not empty.
\<close>

definition request_params :: "int \<Rightarrow> string option \<Rightarrow> params" where
  "request_params cnt et =
     (cnt, (case et of None \<Rightarrow> None | Some e \<Rightarrow> if e = [] then None else Some e))"

definition get_topics :: "http \<Rightarrow> int \<Rightarrow> string option \<Rightarrow> int \<Rightarrow> topic list option \<times> nat" where
  "get_topics requests_get cnt et max_retries =
     get_topics_loop requests_get (request_params cnt et) max_retries 0"

text \<open>An attempt that ends the loop with a result: status 200, the envelope, a list that is not empty.\<close>

fun page_of :: "attempt \<Rightarrow> topic list option" where
  "page_of (Returns (Response status_code (Some (Body (Some (RespData (Some ts))))))) =
     (if status_code = 200 \<and> ts \<noteq> [] then Some ts else None)"
| "page_of _ = None"

section \<open>The Batch Controller: get_topics_in_batches\<close>

definition fmt_frac :: string where
  "fmt_frac = ''%Y-%m-%dT%H:%M:%S.%f%z''"

definition fmt_secs :: string where
  "fmt_secs = ''%Y-%m-%dT%H:%M:%S%z''"

text \<open>
  Lines 219 to 239: \<open>start_time\<close> becomes \<open>start_datetime\<close>, which stays \<open>None\<close> when
  \<open>start_time\<close> is unset or empty or when parsing raises \<open>ValueError\<close>.
\<close>

definition endswith :: "string \<Rightarrow> string \<Rightarrow> bool" where
  "endswith s tail = (length tail \<le> length s \<and> drop (length s - length tail) s = tail)"

definition parse_start_time :: "datetime_lib \<Rightarrow> string option \<Rightarrow> datetime option" where
  "parse_start_time lib start_time =
     (case start_time of
        None \<Rightarrow> None
      | Some s \<Rightarrow>
          if s = [] then None
          else if CHR ''T'' \<in> set s then
            (if endswith s ''Z'' then
               map_option replace_tzinfo_utc (strptime lib s ''%Y-%m-%dT%H:%M:%SZ'')
             else if CHR ''+'' \<in> set s then fromisoformat lib s
             else map_option replace_tzinfo_utc (strptime lib s ''%Y-%m-%dT%H:%M:%S''))
          else map_option replace_tzinfo_utc (strptime lib s ''%Y-%m-%d''))"

text \<open>
  The \<open>try\<close> block of lines 272 to 282 for one topic: \<open>Some True\<close> when the topic is later
  than \<open>start_datetime\<close>, \<open>Some False\<close> when it is not, \<open>None\<close> when \<open>strptime\<close> or
  the comparison raises.
\<close>

definition create_time_raw :: "topic \<Rightarrow> string" where
  "create_time_raw t = (case create_time t of None \<Rightarrow> [] | Some s \<Rightarrow> s)"

definition timestamp_datetime :: "datetime_lib \<Rightarrow> string \<Rightarrow> datetime option" where
  "timestamp_datetime lib raw =
     (if CHR ''.'' \<in> set raw then strptime lib raw fmt_frac else strptime lib raw fmt_secs)"

definition topic_datetime :: "datetime_lib \<Rightarrow> topic \<Rightarrow> datetime option" where
  "topic_datetime lib t = timestamp_datetime lib (create_time_raw t)"

definition later_than :: "datetime_lib \<Rightarrow> datetime \<Rightarrow> topic \<Rightarrow> bool option" where
  "later_than lib start_datetime t =
     (case topic_datetime lib t of
        None \<Rightarrow> None
      | Some d \<Rightarrow> dt_gt d start_datetime)"

text \<open>
  The order of two raw timestamps in time, each read the way line 274 reads a topic's:
  \<open>older lib a b\<close> when both parse and \<open>b > a\<close> as datetimes.
\<close>

definition older :: "datetime_lib \<Rightarrow> string \<Rightarrow> string \<Rightarrow> bool" where
  "older lib a b =
     (case (timestamp_datetime lib a, timestamp_datetime lib b) of
        (Some da, Some db) \<Rightarrow> dt_gt db da = Some True
      | _ \<Rightarrow> False)"

text \<open>
  A sequence of cursors that moves strictly backward in time: every cursor parses, and
  each is older than all before it.
\<close>

definition descending_cursors :: "datetime_lib \<Rightarrow> string list \<Rightarrow> bool" where
  "descending_cursors lib cs =
     (sorted_wrt (\<lambda>a b. older lib b a) cs \<and> list_all (\<lambda>c. timestamp_datetime lib c \<noteq> None) cs)"

text \<open>
  The inner loop of lines 270 to 287 over the page, on its three variables: the topics
  kept, \<open>all_too_old\<close>, and the raw timestamps reported by \<open>logger.error\<close> in the
  \<open>except\<close> branch.
\<close>

fun filter_topics ::
  "datetime_lib \<Rightarrow> datetime \<Rightarrow> topic list \<Rightarrow> topic list \<times> bool \<times> string list
     \<Rightarrow> topic list \<times> bool \<times> string list" where
  "filter_topics lib start_datetime [] acc = acc"
| "filter_topics lib start_datetime (t # rest) (filtered_topics, all_too_old, errors) =
     (case later_than lib start_datetime t of
        Some True \<Rightarrow>
          filter_topics lib start_datetime rest (filtered_topics @ [t], False, errors)
      | Some False \<Rightarrow>
          filter_topics lib start_datetime rest (filtered_topics, all_too_old, errors)
      | None \<Rightarrow>
          filter_topics lib start_datetime rest
            (filtered_topics @ [t], False, errors @ [create_time_raw t]))"

text \<open>
  The variables of the outer loop. \<open>requested\<close> records the \<open>end_time\<close> argument of every
  call of \<open>get_topics\<close>, in order, and \<open>parse_errors\<close> the timestamps reported at line
  284: both are effects of the source, not variables of it.
\<close>

record batch_state =
  all_topics :: "topic list"
  end_time :: "string option"
  consecutive_small_batches :: int
  requested :: "string option list"
  parse_errors :: "string list"

datatype flow = Continue batch_state | Break batch_state

fun flow_state :: "flow \<Rightarrow> batch_state" where
  "flow_state (Continue st) = st"
| "flow_state (Break st) = st"

fun is_break :: "flow \<Rightarrow> bool" where
  "is_break (Continue st) = False"
| "is_break (Break st) = True"

text \<open>
  One iteration of \<open>for batch in range(batches_needed)\<close>, lines 244 to 302.
  \<open>net batch\<close> is the network as the call of \<open>get_topics\<close> of this iteration meets it;
  the call leaves \<open>max_retries\<close> at its default 5.
\<close>

definition batch_step ::
  "datetime_lib \<Rightarrow> (nat \<Rightarrow> http) \<Rightarrow> int \<Rightarrow> datetime option \<Rightarrow> nat \<Rightarrow> batch_state \<Rightarrow> flow" where
  "batch_step lib net batch_size start_datetime batch st0 =
     (let st = st0\<lparr>requested := requested st0 @ [end_time st0]\<rparr> in
      case fst (get_topics (net batch) batch_size (end_time st0) 5) of
        None \<Rightarrow> Break st
      | Some topics \<Rightarrow>
          if topics = [] then Break st
          else
            let current_batch_size = int (length topics);
                st = (if current_batch_size < batch_size
                      then st\<lparr>consecutive_small_batches := consecutive_small_batches st + 1\<rparr>
                      else st\<lparr>consecutive_small_batches := 0\<rparr>)
            in
              if current_batch_size < batch_size \<and> consecutive_small_batches st \<ge> 3
              then Break st
              else
                (case start_datetime of
                   Some sd \<Rightarrow>
                     (case filter_topics lib sd topics ([], True, []) of
                        (filtered_topics, all_too_old, errors) \<Rightarrow>
                          let st = st\<lparr>parse_errors := parse_errors st @ errors\<rparr> in
                          if all_too_old then Break st
                          else Continue
                            (st\<lparr>all_topics := all_topics st @ filtered_topics,
                                end_time := create_time (last topics)\<rparr>))
                 | None \<Rightarrow>
                     Continue
                       (st\<lparr>all_topics := all_topics st @ topics,
                           end_time := create_time (last topics)\<rparr>)))"

text \<open>The \<open>for\<close> loop over the batch numbers, left at the first \<open>break\<close>.\<close>

fun batches_loop ::
  "datetime_lib \<Rightarrow> (nat \<Rightarrow> http) \<Rightarrow> int \<Rightarrow> datetime option \<Rightarrow> nat list \<Rightarrow> batch_state
     \<Rightarrow> batch_state" where
  "batches_loop lib net batch_size start_datetime [] st = st"
| "batches_loop lib net batch_size start_datetime (batch # rest) st =
     (case batch_step lib net batch_size start_datetime batch st of
        Break st' \<Rightarrow> st'
      | Continue st' \<Rightarrow> batches_loop lib net batch_size start_datetime rest st')"

definition initial_state :: batch_state where
  "initial_state =
     \<lparr>all_topics = [], end_time = None, consecutive_small_batches = 0,
      requested = [], parse_errors = []\<rparr>"

text \<open>
  The whole function, with the state the loop ends in. \<open>total_count // batch_size\<close>
  is evaluated first and raises \<open>ZeroDivisionError\<close> for \<open>batch_size = 0\<close>;
  \<open>range(batches_needed)\<close> is empty for a negative \<open>batches_needed\<close>.
\<close>

definition run_batches ::
  "datetime_lib \<Rightarrow> (nat \<Rightarrow> http) \<Rightarrow> int \<Rightarrow> int \<Rightarrow> string option \<Rightarrow> py_error + batch_state" where
  "run_batches lib net total_count batch_size start_time =
     (if batch_size = 0 then Inl ZeroDivisionError
      else
        let batches_needed = total_count div batch_size in
        Inr (batches_loop lib net batch_size (parse_start_time lib start_time)
               [0 ..< nat batches_needed] initial_state))"

definition get_topics_in_batches ::
  "datetime_lib \<Rightarrow> (nat \<Rightarrow> http) \<Rightarrow> int \<Rightarrow> int \<Rightarrow> string option \<Rightarrow> py_error + topic list" where
  "get_topics_in_batches lib net total_count batch_size start_time =
     map_sum id all_topics (run_batches lib net total_count batch_size start_time)"

section \<open>Strings as Python handles them\<close>

text \<open>
  \<open>sub in s\<close> on strings is \<^const>\<open>sublist\<close>. \<open>s.split(c)\<close> for a one-character
  separator: the pieces between the occurrences of \<open>c\<close>, one more than there are
  occurrences.
\<close>

fun split_on :: "char \<Rightarrow> string \<Rightarrow> string list" where
  "split_on c [] = [[]]"
| "split_on c (x # xs) =
     (if x = c then [] # split_on c xs
      else (case split_on c xs of
              piece # pieces \<Rightarrow> (x # piece) # pieces
            | [] \<Rightarrow> [[x]]))"

text \<open>
  The UTF-8 encodings of the code points that \<open>str.strip()\<close> removes (those for which
  \<open>str.isspace\<close> holds): U+0009 to U+000D, U+001C to U+0020, U+0085, U+00A0, U+1680,
  U+2000 to U+200A, U+2028, U+2029, U+202F, U+205F, U+3000.
\<close>

definition whitespace :: "string list" where
  "whitespace =
     [[CHR 0x09],
      [CHR 0x0A],
      [CHR 0x0B],
      [CHR 0x0C],
      [CHR 0x0D],
      [CHR 0x1C],
      [CHR 0x1D],
      [CHR 0x1E],
      [CHR 0x1F],
      [CHR 0x20],
      [CHR 0xC2, CHR 0x85],
      [CHR 0xC2, CHR 0xA0],
      [CHR 0xE1, CHR 0x9A, CHR 0x80],
      [CHR 0xE2, CHR 0x80, CHR 0x80],
      [CHR 0xE2, CHR 0x80, CHR 0x81],
      [CHR 0xE2, CHR 0x80, CHR 0x82],
      [CHR 0xE2, CHR 0x80, CHR 0x83],
      [CHR 0xE2, CHR 0x80, CHR 0x84],
      [CHR 0xE2, CHR 0x80, CHR 0x85],
      [CHR 0xE2, CHR 0x80, CHR 0x86],
      [CHR 0xE2, CHR 0x80, CHR 0x87],
      [CHR 0xE2, CHR 0x80, CHR 0x88],
      [CHR 0xE2, CHR 0x80, CHR 0x89],
      [CHR 0xE2, CHR 0x80, CHR 0x8A],
      [CHR 0xE2, CHR 0x80, CHR 0xA8],
      [CHR 0xE2, CHR 0x80, CHR 0xA9],
      [CHR 0xE2, CHR 0x80, CHR 0xAF],
      [CHR 0xE2, CHR 0x81, CHR 0x9F],
      [CHR 0xE3, CHR 0x80, CHR 0x80]]"

text \<open>The length of the whitespace code point that \<open>s\<close> starts with, 0 when there is none.\<close>

definition ws_prefix :: "string list \<Rightarrow> string \<Rightarrow> nat" where
  "ws_prefix ws s = (case find (\<lambda>w. prefix w s) ws of None \<Rightarrow> 0 | Some w \<Rightarrow> length w)"

lemma ws_prefix_le: "ws_prefix ws s \<le> length s"
  by (auto simp: ws_prefix_def prefix_length_le split: option.splits dest!: find_Some_iff [THEN iffD1])

function lstrip_with :: "string list \<Rightarrow> string \<Rightarrow> string" where
  "lstrip_with ws s =
     (if ws_prefix ws s = 0 then s else lstrip_with ws (drop (ws_prefix ws s) s))"
  by pat_completeness auto
termination
proof (relation "measure (\<lambda>(ws, s). length s)")
  fix ws :: "string list" and s :: string
  assume "ws_prefix ws s \<noteq> 0"
  moreover have "ws_prefix ws s \<le> length s" by (rule ws_prefix_le)
  ultimately show "((ws, drop (ws_prefix ws s) s), (ws, s)) \<in> measure (\<lambda>(ws, s). length s)"
    by simp
qed simp

declare lstrip_with.simps [simp del]

text \<open>\<open>s.strip()\<close>: whitespace is removed at the start, then at the end.\<close>

definition py_strip :: "string \<Rightarrow> string" where
  "py_strip s = rev (lstrip_with (map rev whitespace) (rev (lstrip_with whitespace s)))"

text \<open>
  \<open>f.readlines()\<close> of a file opened for reading in text mode: the text is cut after
  every line end, and \<open>\r\n\<close> and \<open>\r\<close> are read as \<open>\n\<close>. \<open>cur\<close> is the line read so
  far.
\<close>

fun readlines_from :: "string \<Rightarrow> string \<Rightarrow> string list" where
  "readlines_from cur [] = (if cur = [] then [] else [cur])"
| "readlines_from cur (c # cs) =
     (if c = CHR 0x0A then (cur @ [CHR 0x0A]) # readlines_from [] cs
      else if c = CHR 0x0D then
        (cur @ [CHR 0x0A]) # readlines_from [] (if cs \<noteq> [] \<and> hd cs = CHR 0x0A then tl cs else cs)
      else readlines_from (cur @ [c]) cs)"

definition readlines :: "string \<Rightarrow> string list" where
  "readlines text = readlines_from [] text"

section \<open>Timestamps and file names\<close>

text \<open>
  \<open>convert_time\<close> and \<open>get_filename_time\<close> try the format with a fraction, then the one
  without. When both fail, \<open>convert_time\<close> returns its argument and
  \<open>get_filename_time\<close> returns \<open>time.strftime("%Y-%m-%d_%H-%M-%S")\<close>, the local time
  of the call: \<open>now\<close> is that reading of the clock.
\<close>

definition convert_time :: "datetime_lib \<Rightarrow> string \<Rightarrow> string" where
  "convert_time lib time_str =
     (case strptime lib time_str fmt_frac of
        Some dt \<Rightarrow> strftime lib dt ''%Y-%m-%d %H:%M:%S''
      | None \<Rightarrow>
          (case strptime lib time_str fmt_secs of
             Some dt \<Rightarrow> strftime lib dt ''%Y-%m-%d %H:%M:%S''
           | None \<Rightarrow> time_str))"

definition get_filename_time :: "datetime_lib \<Rightarrow> string \<Rightarrow> string \<Rightarrow> string" where
  "get_filename_time lib now time_str =
     (case strptime lib time_str fmt_frac of
        Some dt \<Rightarrow> strftime lib dt ''%Y-%m-%d_%H-%M-%S''
      | None \<Rightarrow>
          (case strptime lib time_str fmt_secs of
             Some dt \<Rightarrow> strftime lib dt ''%Y-%m-%d_%H-%M-%S''
           | None \<Rightarrow> now))"

text \<open>
  \<open>re.sub(r'[\\/*?:"<>|]', "_", filename)\<close>: each of the nine characters
  \<open>\ / * ? : " < > |\<close> becomes an underscore.
\<close>

definition sanitize_filename :: "string \<Rightarrow> string" where
  "sanitize_filename filename =
     map (\<lambda>c. if c \<in> set ([CHR 0x5C, CHR 0x22] @ ''/*?:<>|'') then CHR ''_'' else c) filename"

text \<open>The file name of a post: \<open>f"{file_time}_{safe_author_name}.md"\<close>.\<close>

definition post_filename :: "datetime_lib \<Rightarrow> string \<Rightarrow> string \<Rightarrow> string \<Rightarrow> string" where
  "post_filename lib now time_str author_name =
     get_filename_time lib now time_str @ ''_'' @ sanitize_filename author_name @ ''.md''"

section \<open>The Index Merger: create_markdown\<close>

text \<open>
  An index entry is the tuple \<open>(create_time, author_name, topic_id, filename)\<close>. The
  directory \<open>zsxq_posts\<close> is held as the text of \<open>index.md\<close> (\<open>None\<close> when there is no
  such file) and the names of the post files in it.
\<close>

type_synonym entry = "string \<times> string \<times> string \<times> string"

record posts_dir =
  index_md :: "string option"
  files :: "string set"

definition entry_filename :: "entry \<Rightarrow> string" where
  "entry_filename e = snd (snd (snd e))"

text \<open>
  The text written to \<open>index.md\<close>: the title with \<open>group_id\<close> and an empty line, the
  two header rows, and a row for each entry. The Chinese words of the source are written
  as their UTF-8 bytes.
\<close>

definition header_marker :: string where
  "header_marker = ''| '' @ [CHR 0xE5, CHR 0x8F, CHR 0x91, CHR 0xE5, CHR 0xB8, CHR 0x83, CHR 0xE6, CHR 0x97, CHR 0xB6, CHR 0xE9, CHR 0x97, CHR 0xB4] @ '' |''"

definition separator_marker :: string where
  "separator_marker = ''|---------|''"

definition index_title :: "string \<Rightarrow> string" where
  "index_title group_id = ''# '' @ [CHR 0xE7, CHR 0x9F, CHR 0xA5, CHR 0xE8, CHR 0xAF, CHR 0x86, CHR 0xE6, CHR 0x98, CHR 0x9F, CHR 0xE7, CHR 0x90, CHR 0x83, CHR 0xE5, CHR 0xB8, CHR 0x96, CHR 0xE5, CHR 0xAD, CHR 0x90, CHR 0xE7, CHR 0xB4, CHR 0xA2, CHR 0xE5, CHR 0xBC, CHR 0x95]
       @ '' - '' @ group_id @ [CHR 0x0A, CHR 0x0A]"

definition index_header :: string where
  "index_header = ''| '' @ [CHR 0xE5, CHR 0x8F, CHR 0x91, CHR 0xE5, CHR 0xB8, CHR 0x83, CHR 0xE6, CHR 0x97, CHR 0xB6, CHR 0xE9, CHR 0x97, CHR 0xB4]
     @ '' | '' @ [CHR 0xE4, CHR 0xBD, CHR 0x9C, CHR 0xE8, CHR 0x80, CHR 0x85] @ '' | '' @ [CHR 0xE5, CHR 0xB8, CHR 0x96, CHR 0xE5, CHR 0xAD, CHR 0x90] @ ''ID | ''
     @ [CHR 0xE6, CHR 0x96, CHR 0x87, CHR 0xE4, CHR 0xBB, CHR 0xB6, CHR 0xE9, CHR 0x93, CHR 0xBE, CHR 0xE6, CHR 0x8E, CHR 0xA5] @ '' |'' @ [CHR 0x0A]
     @ ''|---------|------|--------|----------|'' @ [CHR 0x0A]"

definition index_row :: "entry \<Rightarrow> string" where
  "index_row e =
     (case e of (created, author_name, post_id, filename) \<Rightarrow>
        ''| '' @ created @ '' | '' @ author_name @ '' | '' @ post_id
          @ '' | ['' @ filename @ '']('' @ filename @ '') |'' @ [CHR 0x0A])"

definition index_text :: "string \<Rightarrow> entry list \<Rightarrow> string" where
  "index_text group_id entries =
     index_title group_id @ index_header @ concat (map index_row entries)"

text \<open>
  Lines 544 to 556 for one table row: \<open>None\<close> when the row has fewer than five parts,
  or when \<open>filename_part.split('(')[1]\<close> raises \<open>IndexError\<close>; the source logs the
  exception and goes on to the next line.
\<close>

definition parse_row :: "string \<Rightarrow> entry option" where
  "parse_row line =
     (let parts = map py_strip (split_on CHR ''|'' line) in
      if length parts \<ge> 5 then
        (let created = parts ! 1; author_name = parts ! 2; post_id = parts ! 3;
             filename_part = parts ! 4;
             pieces = split_on CHR ''('' filename_part
         in if length pieces < 2 then None
            else Some (created, author_name, post_id, hd (split_on CHR '')'' (pieces ! 1))))
      else None)"

text \<open>
  The loop of lines 533 to 558 over the lines of the existing index, on
  \<open>table_started\<close>, \<open>existing_entries\<close> and \<open>existing_entries_data\<close>.
\<close>

fun read_index ::
  "bool \<Rightarrow> string list \<Rightarrow> string set \<times> entry list \<Rightarrow> string set \<times> entry list" where
  "read_index table_started [] acc = acc"
| "read_index table_started (line # rest) (existing_entries, existing_entries_data) =
     (if sublist header_marker line then
        read_index True rest (existing_entries, existing_entries_data)
      else if sublist separator_marker line then
        read_index table_started rest (existing_entries, existing_entries_data)
      else if table_started \<and> CHR ''|'' \<in> set line \<and> sublist ''.md'' line then
        (case parse_row line of
           Some e \<Rightarrow>
             read_index table_started rest
               (insert (entry_filename e) existing_entries, existing_entries_data @ [e])
         | None \<Rightarrow> read_index table_started rest (existing_entries, existing_entries_data))
      else read_index table_started rest (existing_entries, existing_entries_data))"

text \<open>What one line of the index adds to the entries: the branches of the loop, for one line.\<close>

definition line_entry :: "bool \<Rightarrow> string \<Rightarrow> entry option" where
  "line_entry table_started line =
     (if sublist header_marker line then None
      else if sublist separator_marker line then None
      else if table_started \<and> CHR ''|'' \<in> set line \<and> sublist ''.md'' line then parse_row line
      else None)"

text \<open>
  An entry reads back when the row written for it is read as one table row that gives
  the same entry again. It does not when, say, the author name holds a \<open>|\<close> or the
  file name a parenthesis.
\<close>

definition reads_back :: "entry \<Rightarrow> bool" where
  "reads_back e =
     (read_index True (readlines (index_row e)) ({}, []) = ({entry_filename e}, [e]))"

definition read_existing :: "posts_dir \<Rightarrow> string set \<times> entry list" where
  "read_existing dir =
     (case index_md dir of
        None \<Rightarrow> ({}, [])
      | Some text \<Rightarrow> read_index False (readlines text) ({}, []))"

text \<open>
  The talk of a topic: its \<open>talk\<close>, else its \<open>question\<close>; \<open>not talk\<close> holds when neither
  key is there or the value is the empty dict. The author is
  \<open>talk.get('owner', {}).get('name', DEFAULT)\<close>.
\<close>

definition topic_talk :: "topic \<Rightarrow> talk option" where
  "topic_talk t = (case talk t of Some x \<Rightarrow> Some x | None \<Rightarrow> question t)"

definition not_talk :: "talk option \<Rightarrow> bool" where
  "not_talk x = (case x of None \<Rightarrow> True | Some d \<Rightarrow> owner d = None \<and> other_keys d = [])"

definition unknown_author :: string where
  "unknown_author = [CHR 0xE6, CHR 0x9C, CHR 0xAA, CHR 0xE7, CHR 0x9F, CHR 0xA5, CHR 0xE4, CHR 0xBD, CHR 0x9C, CHR 0xE8, CHR 0x80, CHR 0x85]"

definition author_name_of :: "talk option \<Rightarrow> string" where
  "author_name_of x =
     (case x of
        None \<Rightarrow> unknown_author
      | Some d \<Rightarrow>
          (case owner d of
             None \<Rightarrow> unknown_author
           | Some u \<Rightarrow> (case name u of None \<Rightarrow> unknown_author | Some n \<Rightarrow> n)))"

definition topic_id_of :: "topic \<Rightarrow> string" where
  "topic_id_of t = (case topic_id t of None \<Rightarrow> [] | Some i \<Rightarrow> i)"

text \<open>
  What writing a post file can come to: the file is written (\<open>Rendered\<close>); \<open>open\<close>
  raises, so that no file is made; or something raises after \<open>open\<close> has made the file.
  In the last two cases the \<open>except\<close> of line 494 returns \<open>None\<close>.
\<close>

datatype render = Rendered | FailsAtOpen | FailsWhileWriting

text \<open>
  \<open>create_markdown_for_topic\<close>, as far as the index depends on it: what it returns
  (the path, or \<open>None\<close>) and the post files after it. The body of the file, the images
  and the comments are left out. A file that exists is not written again and its path
  is returned.
\<close>

definition create_markdown_for_topic ::
  "datetime_lib \<Rightarrow> string \<Rightarrow> render \<Rightarrow> string set \<Rightarrow> topic \<Rightarrow> string option \<times> string set" where
  "create_markdown_for_topic lib now io fs t =
     (if not_talk (topic_talk t) then (None, fs)
      else
        let filename = post_filename lib now (create_time_raw t) (author_name_of (topic_talk t));
            file_path = ''zsxq_posts/'' @ filename
        in if filename \<in> fs then (Some file_path, fs)
           else
             (case io of
                Rendered \<Rightarrow> (Some file_path, insert filename fs)
              | FailsAtOpen \<Rightarrow> (None, fs)
              | FailsWhileWriting \<Rightarrow> (None, insert filename fs)))"

text \<open>
  The loop of lines 563 to 603 over the topics, on \<open>new_entries\<close> and the post files.
  \<open>clock idx k\<close> is the local time at which the topic numbered \<open>idx\<close> gets its file name:
  \<open>k = 0\<close> at line 584, \<open>k = 1\<close> inside \<open>create_markdown_for_topic\<close>; \<open>io idx\<close> is
  what writing its file comes to.
\<close>

fun index_topics ::
  "datetime_lib \<Rightarrow> (nat \<Rightarrow> nat \<Rightarrow> string) \<Rightarrow> (nat \<Rightarrow> render) \<Rightarrow> string set \<Rightarrow> nat \<Rightarrow> topic list
     \<Rightarrow> entry list \<times> string set \<Rightarrow> entry list \<times> string set" where
  "index_topics lib clock io existing_entries idx [] acc = acc"
| "index_topics lib clock io existing_entries idx (t # rest) (new_entries, fs) =
     (if not_talk (topic_talk t) then
        index_topics lib clock io existing_entries (Suc idx) rest (new_entries, fs)
      else
        let author_name = author_name_of (topic_talk t);
            filename = post_filename lib (clock idx 0) (create_time_raw t) author_name
        in if filename \<in> existing_entries then
             index_topics lib clock io existing_entries (Suc idx) rest (new_entries, fs)
           else
             (case create_markdown_for_topic lib (clock idx 1) (io idx) fs t of
                (Some file_path, fs') \<Rightarrow>
                  index_topics lib clock io existing_entries (Suc idx) rest
                    (new_entries
                       @ [(convert_time lib (create_time_raw t), author_name, topic_id_of t,
                           filename)],
                     fs')
              | (None, fs') \<Rightarrow>
                  index_topics lib clock io existing_entries (Suc idx) rest (new_entries, fs')))"

text \<open>The entry that the loop appends for the topic numbered \<open>idx\<close>.\<close>

definition topic_entry :: "datetime_lib \<Rightarrow> (nat \<Rightarrow> nat \<Rightarrow> string) \<Rightarrow> nat \<Rightarrow> topic \<Rightarrow> entry" where
  "topic_entry lib clock idx t =
     (convert_time lib (create_time_raw t), author_name_of (topic_talk t), topic_id_of t,
      post_filename lib (clock idx 0) (create_time_raw t) (author_name_of (topic_talk t)))"

text \<open>
  \<open>all_entries.sort(reverse=True, key=lambda x: x[0])\<close>: Python reverses the list,
  sorts it stably by the key and reverses it again, so that entries with equal keys
  keep their order. Strings compare by code point, which is the order of their UTF-8
  bytes.
\<close>

definition sort_reverse :: "entry list \<Rightarrow> entry list" where
  "sort_reverse entries = rev (sort_key fst (rev entries))"

text \<open>
  \<open>create_markdown(topics)\<close>: the directory after the call, and \<open>new_entries\<close>. The
  index is written only when \<open>new_entries\<close> is not empty.
\<close>

definition create_markdown ::
  "datetime_lib \<Rightarrow> (nat \<Rightarrow> nat \<Rightarrow> string) \<Rightarrow> (nat \<Rightarrow> render) \<Rightarrow> string \<Rightarrow> posts_dir \<Rightarrow> topic list
     \<Rightarrow> posts_dir \<times> entry list" where
  "create_markdown lib clock io group_id dir topics =
     (if topics = [] then (dir, [])
      else
        (case read_existing dir of
           (existing_entries, existing_entries_data) \<Rightarrow>
             (case index_topics lib clock io existing_entries 0 topics ([], files dir) of
                (new_entries, fs) \<Rightarrow>
                  let all_entries = existing_entries_data @ new_entries in
                  if new_entries = [] then (dir\<lparr>files := fs\<rparr>, [])
                  else
                    (\<lparr>index_md = Some (index_text group_id (sort_reverse all_entries)),
                      files = fs\<rparr>,
                     new_entries))))"

text \<open>
  One run of \<open>main\<close> with a given start time: the Batch Controller, then the Index
  Merger when it returned any topic.
\<close>

definition fetch_and_index ::
  "datetime_lib \<Rightarrow> (nat \<Rightarrow> http) \<Rightarrow> (nat \<Rightarrow> nat \<Rightarrow> string) \<Rightarrow> (nat \<Rightarrow> render) \<Rightarrow> string
     \<Rightarrow> int \<Rightarrow> int \<Rightarrow> string option \<Rightarrow> posts_dir \<Rightarrow> py_error + posts_dir \<times> entry list" where
  "fetch_and_index lib net clock io group_id total_count batch_size start_time dir =
     (case get_topics_in_batches lib net total_count batch_size start_time of
        Inl e \<Rightarrow> Inl e
      | Inr fetched \<Rightarrow>
          if fetched = [] then Inr (dir, [])
          else Inr (create_markdown lib clock io group_id dir fetched))"

section \<open>A datetime library for running the model\<close>

text \<open>
  To run the model on concrete inputs, \<open>canonical_lib\<close> implements the library for the
  canonical spellings of the formats the program uses: four-digit year, two-digit month,
  day, hour, minute and second, an upper-case \<open>T\<close>, one to six fraction digits, and an
  offset written \<open>Z\<close>, \<open>+HHMM\<close> or \<open>+HH:MM\<close>. On every string it accepts it gives the
  value CPython gives; it rejects other spellings that CPython accepts (a one-digit
  month, a lower-case \<open>t\<close>, an offset with seconds). Every general theorem below is
  about an arbitrary library, not about this one.
\<close>

definition digit_of :: "char \<Rightarrow> int option" where
  "digit_of c =
     (if CHR ''0'' \<le> c \<and> c \<le> CHR ''9'' then Some (int (of_char c) - 48) else None)"

fun number_acc :: "int \<Rightarrow> string \<Rightarrow> int option" where
  "number_acc acc [] = Some acc"
| "number_acc acc (c # cs) =
     (case digit_of c of None \<Rightarrow> None | Some d \<Rightarrow> number_acc (acc * 10 + d) cs)"

definition number :: "string \<Rightarrow> int option" where
  "number s = (if s = [] then None else number_acc 0 s)"

definition days_in_month :: "int \<Rightarrow> int \<Rightarrow> int" where
  "days_in_month y m =
     (if m = 2 then (if is_leap y then 29 else 28)
      else if m = 4 \<or> m = 6 \<or> m = 9 \<or> m = 11 then 30 else 31)"

definition parse_ymd :: "string \<Rightarrow> (int \<times> int \<times> int) option" where
  "parse_ymd s =
     (if length s = 10 \<and> s ! 4 = CHR ''-'' \<and> s ! 7 = CHR ''-'' then
        (case (number (take 4 s), number (take 2 (drop 5 s)), number (drop 8 s)) of
           (Some y, Some m, Some d) \<Rightarrow>
             if 1 \<le> y \<and> 1 \<le> m \<and> m \<le> 12 \<and> 1 \<le> d \<and> d \<le> days_in_month y m
             then Some (y, m, d) else None
         | _ \<Rightarrow> None)
      else None)"

definition parse_hms :: "string \<Rightarrow> (int \<times> int \<times> int) option" where
  "parse_hms s =
     (if length s = 8 \<and> s ! 2 = CHR '':'' \<and> s ! 5 = CHR '':'' then
        (case (number (take 2 s), number (take 2 (drop 3 s)), number (drop 6 s)) of
           (Some h, Some m, Some sec) \<Rightarrow>
             if h \<le> 23 \<and> m \<le> 59 \<and> sec \<le> 59 then Some (h, m, sec) else None
         | _ \<Rightarrow> None)
      else None)"

text \<open>The offset in microseconds.\<close>

definition parse_offset :: "string \<Rightarrow> int option" where
  "parse_offset z =
     (if z = ''Z'' then Some 0
      else if z \<noteq> [] \<and> (hd z = CHR ''+'' \<or> hd z = CHR ''-'') then
        (let digits = (if length z = 6 \<and> z ! 3 = CHR '':'' then take 2 (tl z) @ drop 4 z
                       else tl z)
         in if length digits = 4 then
              (case (number (take 2 digits), number (drop 2 digits)) of
                 (Some h, Some m) \<Rightarrow>
                   if h \<le> 23 \<and> m \<le> 59
                   then Some ((if hd z = CHR ''-'' then - 1 else 1) * (h * 3600 + m * 60) * 1000000)
                   else None
               | _ \<Rightarrow> None)
            else None)
      else None)"

text \<open>\<open>%f\<close>: one to six digits, read as if padded with zeros on the right.\<close>

definition parse_fraction :: "string \<Rightarrow> int option" where
  "parse_fraction f =
     (if 1 \<le> length f \<and> length f \<le> 6 then number (f @ replicate (6 - length f) CHR ''0'')
      else None)"

definition make_datetime ::
  "(int \<times> int \<times> int) option \<Rightarrow> (int \<times> int \<times> int) option \<Rightarrow> int option \<Rightarrow> int option option
     \<Rightarrow> datetime option" where
  "make_datetime date time frac off =
     (case (date, time, frac, off) of
        (Some (y, m, d), Some (h, mi, sec), Some us, Some tz) \<Rightarrow>
          Some \<lparr>year = y, month = m, day = d, hour = h, minute = mi, second = sec,
                microsecond = us, tzinfo = tz\<rparr>
      | _ \<Rightarrow> None)"

text \<open>\<open>YYYY-MM-DDTHH:MM:SS\<close> followed by \<open>rest\<close>.\<close>

definition split_date_time :: "string \<Rightarrow> (string \<times> string \<times> string) option" where
  "split_date_time s =
     (if 19 \<le> length s \<and> s ! 10 = CHR ''T'' then Some (take 10 s, take 8 (drop 11 s), drop 19 s)
      else None)"

definition is_digit :: "char \<Rightarrow> bool" where
  "is_digit c = (digit_of c \<noteq> None)"

definition canonical_strptime :: "string \<Rightarrow> string \<Rightarrow> datetime option" where
  "canonical_strptime s fmt =
     (if fmt = ''%Y-%m-%d'' then
        make_datetime (parse_ymd s) (Some (0, 0, 0)) (Some 0) (Some None)
      else
        (case split_date_time s of
           None \<Rightarrow> None
         | Some (date, time, rest) \<Rightarrow>
             if fmt = ''%Y-%m-%dT%H:%M:%S'' then
               (if rest = [] then make_datetime (parse_ymd date) (parse_hms time) (Some 0) (Some None)
                else None)
             else if fmt = ''%Y-%m-%dT%H:%M:%SZ'' then
               (if rest = ''Z'' then make_datetime (parse_ymd date) (parse_hms time) (Some 0) (Some None)
                else None)
             else if fmt = ''%Y-%m-%dT%H:%M:%S%z'' then
               make_datetime (parse_ymd date) (parse_hms time) (Some 0)
                 (map_option Some (parse_offset rest))
             else if fmt = ''%Y-%m-%dT%H:%M:%S.%f%z'' then
               (if rest \<noteq> [] \<and> hd rest = CHR ''.'' then
                  make_datetime (parse_ymd date) (parse_hms time)
                    (parse_fraction (takeWhile is_digit (tl rest)))
                    (map_option Some (parse_offset (dropWhile is_digit (tl rest))))
                else None)
             else None))"

text \<open>
  \<open>fromisoformat\<close> for \<open>YYYY-MM-DDTHH:MM:SS\<close>, an optional fraction of three or six
  digits and an offset \<open>+HH:MM\<close> or \<open>-HH:MM\<close>: what \<open>isoformat()\<close> writes for an aware
  value.
\<close>

definition canonical_fromisoformat :: "string \<Rightarrow> datetime option" where
  "canonical_fromisoformat s =
     (case split_date_time s of
        None \<Rightarrow> None
      | Some (date, time, rest) \<Rightarrow>
          (let frac = (if rest \<noteq> [] \<and> hd rest = CHR ''.'' then takeWhile is_digit (tl rest) else []);
               z = (if rest \<noteq> [] \<and> hd rest = CHR ''.'' then dropWhile is_digit (tl rest) else rest)
           in if (rest \<noteq> [] \<and> hd rest = CHR ''.'' \<longrightarrow> length frac = 3 \<or> length frac = 6)
                 \<and> length z = 6 \<and> z ! 3 = CHR '':''
              then make_datetime (parse_ymd date) (parse_hms time)
                     (if frac = [] then Some 0 else parse_fraction frac)
                     (map_option Some (parse_offset z))
              else None))"

text \<open>A number written with at least \<open>w\<close> digits.\<close>

fun digits_of :: "nat \<Rightarrow> nat \<Rightarrow> string" where
  "digits_of 0 n = []"
| "digits_of (Suc w) n = digits_of w (n div 10) @ [char_of (48 + n mod 10)]"

definition pad :: "nat \<Rightarrow> int \<Rightarrow> string" where
  "pad w n = digits_of w (nat n)"

text \<open>
  \<open>strftime\<close> for the two formats of \<open>convert_time\<close> and \<open>get_filename_time\<close>, for
  years from 1000 on.
\<close>

definition canonical_strftime :: "datetime \<Rightarrow> string \<Rightarrow> string" where
  "canonical_strftime dt fmt =
     (if fmt = ''%Y-%m-%d %H:%M:%S'' then
        pad 4 (year dt) @ ''-'' @ pad 2 (month dt) @ ''-'' @ pad 2 (day dt) @ '' ''
          @ pad 2 (hour dt) @ '':'' @ pad 2 (minute dt) @ '':'' @ pad 2 (second dt)
      else if fmt = ''%Y-%m-%d_%H-%M-%S'' then
        pad 4 (year dt) @ ''-'' @ pad 2 (month dt) @ ''-'' @ pad 2 (day dt) @ ''_''
          @ pad 2 (hour dt) @ ''-'' @ pad 2 (minute dt) @ ''-'' @ pad 2 (second dt)
      else fmt)"

definition canonical_lib :: datetime_lib where
  "canonical_lib =
     \<lparr>strptime = canonical_strptime, fromisoformat = canonical_fromisoformat,
      strftime = canonical_strftime\<rparr>"

section \<open>Inputs for running the model\<close>

text \<open>A network that answers the requests of one call with the outcomes listed, then fails.\<close>

definition scripted :: "attempt list \<Rightarrow> http" where
  "scripted outcomes ps i = (if i < length outcomes then outcomes ! i else Raises)"

definition ok_page :: "topic list \<Rightarrow> attempt" where
  "ok_page ts = Returns (Response 200 (Some (Body (Some (RespData (Some ts))))))"

text \<open>
  An upstream that answers the call of batch \<open>b\<close> with the \<open>b\<close>-th page of the list at
  once, and with an empty list when the pages are used up.
\<close>

definition serve :: "topic list list \<Rightarrow> nat \<Rightarrow> http" where
  "serve pages b ps i = (if b < length pages then ok_page (pages ! b) else ok_page [])"

definition post :: "string \<Rightarrow> string option \<Rightarrow> string \<Rightarrow> topic" where
  "post tid ct author =
     \<lparr>topic_id = Some tid, create_time = ct,
      talk = Some \<lparr>owner = Some \<lparr>name = Some author\<rparr>, other_keys = [''text'']\<rparr>,
      question = None\<rparr>"

definition page_of_size :: "nat \<Rightarrow> topic list" where
  "page_of_size n = replicate n (post ''1'' (Some ''2024-01-02T03:04:05.678+0800'') ''alice'')"

text \<open>
  An upstream that keeps the posts \<open>db\<close>, newest first, and answers every request with
  the first \<open>count\<close> of those older than the \<open>end_time\<close> of the request.
\<close>

definition archive :: "datetime_lib \<Rightarrow> topic list \<Rightarrow> nat \<Rightarrow> http" where
  "archive lib db b ps i =
     ok_page (take (nat (fst ps))
       (filter (\<lambda>t. case snd ps of None \<Rightarrow> True | Some c \<Rightarrow> older lib (create_time_raw t) c) db))"

text \<open>
  Three posts: one of 2 January 2024, one of 31 December 2023, and one whose timestamp
  is not in the API's format (a space for the \<open>T\<close>, no offset), so that \<open>strptime\<close>
  raises \<open>ValueError\<close> on it. \<open>bound_2024\<close> is what the start time \<open>2024-01-01\<close> parses to.
\<close>

definition new_post :: topic where
  "new_post = post ''101'' (Some ''2024-01-02T03:04:05.678+0800'') ''alice''"

definition old_post :: topic where
  "old_post = post ''100'' (Some ''2023-12-31T23:59:59.000+0800'') ''bob''"

definition odd_post :: topic where
  "odd_post = post ''99'' (Some ''2023-12-31 23:59:59'') ''carol''"

definition bound_2024 :: datetime where
  "bound_2024 =
     \<lparr>year = 2024, month = 1, day = 1, hour = 0, minute = 0, second = 0, microsecond = 0,
      tzinfo = Some 0\<rparr>"

section \<open>Properties\<close>

subsection \<open>The Page Fetcher\<close>

text \<open>One round of the loop, read through \<open>page_of\<close>.\<close>

lemma get_topics_loop_unfold:
  "get_topics_loop requests_get ps max_retries retries =
     (if retries \<le> max_retries then
        (case page_of (requests_get ps (nat retries)) of
           Some ts \<Rightarrow> (Some ts, nat retries + 1)
         | None \<Rightarrow>
             if retries \<ge> max_retries then (None, nat retries + 1)
             else get_topics_loop requests_get ps max_retries (retries + 1))
      else (None, nat retries))"
proof (cases "requests_get ps (nat retries)")
  case Raises
  then show ?thesis by (subst get_topics_loop.simps) simp
next
  case (Returns r)
  obtain sc js where r: "r = Response sc js" by (cases r)
  show ?thesis
  proof (cases js)
    case None
    with Returns r show ?thesis by (subst get_topics_loop.simps) simp
  next
    case (Some b)
    obtain rd where b: "b = Body rd" by (cases b)
    show ?thesis
    proof (cases rd)
      case None
      with Returns r Some b show ?thesis by (subst get_topics_loop.simps) simp
    next
      case (Some d)
      obtain ts where d: "d = RespData ts" by (cases d)
      show ?thesis
      proof (cases ts)
        case None
        with Returns r \<open>js = Some b\<close> b Some d show ?thesis
          by (subst get_topics_loop.simps) simp
      next
        case (Some l)
        with Returns r \<open>js = Some b\<close> b \<open>rd = Some d\<close> d show ?thesis
          by (subst get_topics_loop.simps) simp
      qed
    qed
  qed
qed

lemma get_topics_loop_first:
  assumes "0 \<le> r" "r \<le> i" "i \<le> m"
    and "page_of (requests_get ps (nat i)) = Some ts"
    and "\<And>j. r \<le> j \<Longrightarrow> j < i \<Longrightarrow> page_of (requests_get ps (nat j)) = None"
  shows "get_topics_loop requests_get ps m r = (Some ts, nat i + 1)"
  using assms
proof (induction "nat (i - r)" arbitrary: r)
  case 0
  then have "r = i" by simp
  with 0 show ?case by (subst get_topics_loop_unfold) simp
next
  case (Suc k)
  then have lt: "r < i" by linarith
  with Suc.prems have none: "page_of (requests_get ps (nat r)) = None" by simp
  have "get_topics_loop requests_get ps m (r + 1) = (Some ts, nat i + 1)"
  proof (rule Suc.hyps(1))
    show "k = nat (i - (r + 1))" using Suc.hyps(2) by linarith
    show "0 \<le> r + 1" using Suc.prems by simp
    show "r + 1 \<le> i" using lt by simp
    show "i \<le> m" by fact
    show "page_of (requests_get ps (nat i)) = Some ts" by fact
    show "\<And>j. r + 1 \<le> j \<Longrightarrow> j < i \<Longrightarrow> page_of (requests_get ps (nat j)) = None"
      using Suc.prems(5) by simp
  qed
  with none lt Suc.prems show ?case by (subst get_topics_loop_unfold) simp
qed

lemma get_topics_loop_none:
  assumes "0 \<le> r" "r \<le> m"
    and "\<And>j. r \<le> j \<Longrightarrow> j \<le> m \<Longrightarrow> page_of (requests_get ps (nat j)) = None"
  shows "get_topics_loop requests_get ps m r = (None, nat m + 1)"
  using assms
proof (induction "nat (m - r)" arbitrary: r)
  case 0
  then have "r = m" by simp
  with 0 show ?case by (subst get_topics_loop_unfold) simp
next
  case (Suc k)
  then have lt: "r < m" by linarith
  from Suc.prems have none: "page_of (requests_get ps (nat r)) = None" by simp
  have "get_topics_loop requests_get ps m (r + 1) = (None, nat m + 1)"
  proof (rule Suc.hyps(1))
    show "k = nat (m - (r + 1))" using Suc.hyps(2) by linarith
    show "0 \<le> r + 1" using Suc.prems by simp
    show "r + 1 \<le> m" using lt by simp
    show "\<And>j. r + 1 \<le> j \<Longrightarrow> j \<le> m \<Longrightarrow> page_of (requests_get ps (nat j)) = None"
      using Suc.prems(3) by simp
  qed
  with none lt show ?case by (subst get_topics_loop_unfold) simp
qed

text \<open>Either some attempt is the first good one, or none is.\<close>

lemma first_page_cases:
  fixes a :: "nat \<Rightarrow> 'a option" and n :: nat
  shows "(\<exists>i\<le>n. (\<exists>ts. a i = Some ts) \<and> (\<forall>j<i. a j = None)) \<or> (\<forall>i\<le>n. a i = None)"
proof (cases "\<exists>i\<le>n. a i \<noteq> None")
  case True
  define i where "i = (LEAST i. a i \<noteq> None)"
  from True obtain i0 where i0: "i0 \<le> n" "a i0 \<noteq> None" by blast
  have "a i \<noteq> None" unfolding i_def using i0(2) by (rule LeastI)
  moreover have "i \<le> i0" unfolding i_def using i0(2) by (rule Least_le)
  moreover have "\<forall>j<i. a j = None"
    unfolding i_def using not_less_Least by blast
  ultimately show ?thesis using i0(1) by (intro disjI1 exI [of _ i]) auto
next
  case False
  then show ?thesis by blast
qed

lemma get_topics_loop_cases:
  assumes "0 \<le> m"
  shows "(\<exists>i\<le>nat m. \<exists>ts. page_of (requests_get ps i) = Some ts
            \<and> (\<forall>j<i. page_of (requests_get ps j) = None)
            \<and> get_topics_loop requests_get ps m 0 = (Some ts, i + 1))
       \<or> ((\<forall>i\<le>nat m. page_of (requests_get ps i) = None)
            \<and> get_topics_loop requests_get ps m 0 = (None, nat m + 1))"
proof -
  let ?a = "\<lambda>i. page_of (requests_get ps i)"
  from first_page_cases [of "nat m" ?a]
  show ?thesis
  proof
    assume "\<exists>i\<le>nat m. (\<exists>ts. ?a i = Some ts) \<and> (\<forall>j<i. ?a j = None)"
    then obtain i ts where i: "i \<le> nat m" "?a i = Some ts" "\<forall>j<i. ?a j = None" by blast
    have "get_topics_loop requests_get ps m 0 = (Some ts, nat (int i) + 1)"
    proof (rule get_topics_loop_first)
      show "(0::int) \<le> 0" by simp
      show "0 \<le> int i" by simp
      show "int i \<le> m" using i(1) assms by linarith
      show "page_of (requests_get ps (nat (int i))) = Some ts" using i(2) by simp
      show "\<And>j. 0 \<le> j \<Longrightarrow> j < int i \<Longrightarrow> page_of (requests_get ps (nat j)) = None"
        using i(3) by (simp add: nat_less_iff)
    qed
    with i show ?thesis by auto
  next
    assume none: "\<forall>i\<le>nat m. ?a i = None"
    have "get_topics_loop requests_get ps m 0 = (None, nat m + 1)"
    proof (rule get_topics_loop_none)
      show "(0::int) \<le> 0" by simp
      show "0 \<le> m" by fact
      show "\<And>j. 0 \<le> j \<Longrightarrow> j \<le> m \<Longrightarrow> page_of (requests_get ps (nat j)) = None"
        using none by (simp add: nat_le_eq_zle)
    qed
    with none show ?thesis by blast
  qed
qed

lemma page_of_nonempty: "page_of a = Some ts \<Longrightarrow> ts \<noteq> []"
  by (induction a rule: page_of.induct) (auto split: if_splits)

text \<open>
  What \<open>get_topics\<close> returns is a page that is not empty, or \<open>None\<close>: the caller's test
  \<open>not topics or len(topics) == 0\<close> is the test for \<open>None\<close>.
\<close>

lemma get_topics_loop_nonempty:
  "fst (get_topics_loop requests_get ps m r) = Some ts \<Longrightarrow> ts \<noteq> []"
proof (induction "nat (m + 1 - r)" arbitrary: r)
  case 0
  then show ?case by (subst (asm) get_topics_loop_unfold) simp
next
  case (Suc k)
  show ?case
  proof (cases "page_of (requests_get ps (nat r))")
    case None
    show ?thesis
    proof (cases "r < m")
      case True
      with None Suc.prems have "fst (get_topics_loop requests_get ps m (r + 1)) = Some ts"
        by (subst (asm) get_topics_loop_unfold) simp
      moreover have "k = nat (m + 1 - (r + 1))" using Suc.hyps(2) by linarith
      ultimately show ?thesis by (rule Suc.hyps(1) [rotated])
    next
      case False
      with None Suc.prems show ?thesis
        by (subst (asm) get_topics_loop_unfold) (simp split: if_splits)
    qed
  next
    case (Some p)
    with Suc.prems have "r \<le> m \<and> p = ts"
      by (subst (asm) get_topics_loop_unfold) (simp split: if_splits)
    with Some show ?thesis using page_of_nonempty by blast
  qed
qed

lemma get_topics_nonempty:
  "fst (get_topics requests_get cnt et max_retries) = Some ts \<Longrightarrow> ts \<noteq> []"
  unfolding get_topics_def by (rule get_topics_loop_nonempty)

text \<open>
  C6. With \<open>max_retries \<ge> 0\<close>, \<open>get_topics\<close> makes at most \<open>max_retries + 1\<close> requests:
  the first and at most \<open>max_retries\<close> more. An attempt fails (\<open>page_of\<close> is \<open>None\<close>)
  exactly when the request raised, the status is not 200, the body is not JSON or has no
  \<open>resp_data\<close>, or \<open>resp_data\<close> has no \<open>topics\<close> or an empty list. The function returns
  the list of the first attempt that does not fail, having made no request after it, so
  a list it returns is never empty; it returns \<open>None\<close> exactly when all
  \<open>max_retries + 1\<close> attempts fail, and then it has made them all.
\<close>

theorem get_topics_retry_contract:
  assumes "0 \<le> max_retries"
  shows "snd (get_topics requests_get cnt et max_retries) \<le> nat max_retries + 1
    \<and> (\<forall>a. page_of a = None \<longleftrightarrow>
          a = Raises \<or> (\<exists>status_code js. a = Returns (Response status_code js)
            \<and> (status_code \<noteq> 200 \<or> js = None \<or> js = Some (Body None)
                \<or> js = Some (Body (Some (RespData None)))
                \<or> js = Some (Body (Some (RespData (Some [])))))))
    \<and> (\<forall>ts. fst (get_topics requests_get cnt et max_retries) = Some ts \<longleftrightarrow>
          (\<exists>i\<le>nat max_retries. page_of (requests_get (request_params cnt et) i) = Some ts
             \<and> (\<forall>j<i. page_of (requests_get (request_params cnt et) j) = None)))
    \<and> (\<forall>i ts. i \<le> nat max_retries
          \<and> page_of (requests_get (request_params cnt et) i) = Some ts
          \<and> (\<forall>j<i. page_of (requests_get (request_params cnt et) j) = None)
          \<longrightarrow> snd (get_topics requests_get cnt et max_retries) = i + 1)
    \<and> (\<forall>ts. fst (get_topics requests_get cnt et max_retries) = Some ts \<longrightarrow> ts \<noteq> [])
    \<and> (fst (get_topics requests_get cnt et max_retries) = None \<longleftrightarrow>
          (\<forall>i\<le>nat max_retries. page_of (requests_get (request_params cnt et) i) = None))
    \<and> (fst (get_topics requests_get cnt et max_retries) = None \<longrightarrow>
          snd (get_topics requests_get cnt et max_retries) = nat max_retries + 1)"
proof -
  let ?ps = "request_params cnt et"
  let ?a = "\<lambda>i. page_of (requests_get ?ps i)"
  let ?g = "get_topics requests_get cnt et max_retries"
  have g: "?g = get_topics_loop requests_get ?ps max_retries 0"
    by (simp add: get_topics_def)
  have failing: "\<forall>a. page_of a = None \<longleftrightarrow>
      a = Raises \<or> (\<exists>status_code js. a = Returns (Response status_code js)
        \<and> (status_code \<noteq> 200 \<or> js = None \<or> js = Some (Body None)
            \<or> js = Some (Body (Some (RespData None)))
            \<or> js = Some (Body (Some (RespData (Some []))))))"
  proof
    fix a
    show "page_of a = None \<longleftrightarrow>
      a = Raises \<or> (\<exists>status_code js. a = Returns (Response status_code js)
        \<and> (status_code \<noteq> 200 \<or> js = None \<or> js = Some (Body None)
            \<or> js = Some (Body (Some (RespData None)))
            \<or> js = Some (Body (Some (RespData (Some []))))))"
      by (induction a rule: page_of.induct) auto
  qed
  have first_unique: "i = i' \<and> ts = ts'"
    if "?a i = Some ts" "\<forall>j<i. ?a j = None" "?a i' = Some ts'" "\<forall>j<i'. ?a j = None"
    for i i' ts ts'
  proof -
    have "\<not> i < i'" using that(1,4) by auto
    moreover have "\<not> i' < i" using that(2,3) by auto
    ultimately have "i = i'" by simp
    with that(1,3) show ?thesis by simp
  qed
  from get_topics_loop_cases [OF assms, of requests_get ?ps]
  show ?thesis
  proof
    assume "\<exists>i\<le>nat max_retries. \<exists>ts. ?a i = Some ts \<and> (\<forall>j<i. ?a j = None)
       \<and> get_topics_loop requests_get ?ps max_retries 0 = (Some ts, i + 1)"
    then obtain i ts where i: "i \<le> nat max_retries" "?a i = Some ts" "\<forall>j<i. ?a j = None"
      and res: "?g = (Some ts, i + 1)"
      using g by auto
    have ne: "ts \<noteq> []" using i(2) by (rule page_of_nonempty)
    have c1: "snd ?g \<le> nat max_retries + 1" using res i(1) by simp
    have c3: "\<forall>ts'. fst ?g = Some ts' \<longleftrightarrow>
        (\<exists>i\<le>nat max_retries. ?a i = Some ts' \<and> (\<forall>j<i. ?a j = None))"
    proof (intro allI iffI)
      fix ts'
      assume "fst ?g = Some ts'"
      with res have "ts' = ts" by simp
      with i show "\<exists>i\<le>nat max_retries. ?a i = Some ts' \<and> (\<forall>j<i. ?a j = None)"
        by blast
    next
      fix ts'
      assume "\<exists>i\<le>nat max_retries. ?a i = Some ts' \<and> (\<forall>j<i. ?a j = None)"
      then obtain i' where "?a i' = Some ts'" "\<forall>j<i'. ?a j = None" by blast
      with i(2,3) have "ts = ts'" using first_unique by blast
      with res show "fst ?g = Some ts'" by simp
    qed
    have c4: "\<forall>i' ts'. i' \<le> nat max_retries \<and> ?a i' = Some ts' \<and> (\<forall>j<i'. ?a j = None)
        \<longrightarrow> snd ?g = i' + 1"
    proof (intro allI impI)
      fix i' ts'
      assume "i' \<le> nat max_retries \<and> ?a i' = Some ts' \<and> (\<forall>j<i'. ?a j = None)"
      with i(2,3) have "i = i'" using first_unique by blast
      with res show "snd ?g = i' + 1" by simp
    qed
    have c5: "\<forall>ts'. fst ?g = Some ts' \<longrightarrow> ts' \<noteq> []" using res ne by simp
    have c6: "fst ?g = None \<longleftrightarrow> (\<forall>i\<le>nat max_retries. ?a i = None)"
      using res i(1,2) by auto
    have c7: "fst ?g = None \<longrightarrow> snd ?g = nat max_retries + 1" using res by simp
    show ?thesis by (intro conjI c1 failing c3 c4 c5 c6 c7)
  next
    assume "(\<forall>i\<le>nat max_retries. ?a i = None)
       \<and> get_topics_loop requests_get ?ps max_retries 0 = (None, nat max_retries + 1)"
    then have none: "\<forall>i\<le>nat max_retries. ?a i = None"
      and res: "?g = (None, nat max_retries + 1)"
      using g by auto
    have c1: "snd ?g \<le> nat max_retries + 1" using res by simp
    have c3: "\<forall>ts'. fst ?g = Some ts' \<longleftrightarrow>
        (\<exists>i\<le>nat max_retries. ?a i = Some ts' \<and> (\<forall>j<i. ?a j = None))"
      using res none by fastforce
    have c4: "\<forall>i' ts'. i' \<le> nat max_retries \<and> ?a i' = Some ts' \<and> (\<forall>j<i'. ?a j = None)
        \<longrightarrow> snd ?g = i' + 1"
      using none by fastforce
    have c5: "\<forall>ts'. fst ?g = Some ts' \<longrightarrow> ts' \<noteq> []" using res by simp
    have c6: "fst ?g = None \<longleftrightarrow> (\<forall>i\<le>nat max_retries. ?a i = None)"
      using res none by simp
    have c7: "fst ?g = None \<longrightarrow> snd ?g = nat max_retries + 1" using res by simp
    show ?thesis by (intro conjI c1 failing c3 c4 c5 c6 c7)
  qed
qed

text \<open>
  The contract at \<open>max_retries = 5\<close>, on a network whose first three answers fail (an
  exception, status 500, a body without \<open>resp_data\<close>) and whose fourth carries a page:
  four requests, and the page is returned.
\<close>

theorem get_topics_retry_contract_witness:
  "(0::int) \<le> 5
   \<and> snd (get_topics
        (scripted [Raises, Returns (Response 500 None), Returns (Response 200 (Some (Body None))),
                   ok_page [post ''1'' (Some ''2024-01-02T03:04:05.678+0800'') ''alice'']])
        20 None 5) \<le> nat 5 + 1
   \<and> get_topics
        (scripted [Raises, Returns (Response 500 None), Returns (Response 200 (Some (Body None))),
                   ok_page [post ''1'' (Some ''2024-01-02T03:04:05.678+0800'') ''alice'']])
        20 None 5
      = (Some [post ''1'' (Some ''2024-01-02T03:04:05.678+0800'') ''alice''], 4)"
  using get_topics_retry_contract [of 5
      "scripted [Raises, Returns (Response 500 None), Returns (Response 200 (Some (Body None))),
                 ok_page [post ''1'' (Some ''2024-01-02T03:04:05.678+0800'') ''alice'']]"
      20 None]
  by (simp add: get_topics_def get_topics_loop_unfold scripted_def ok_page_def request_params_def)

subsection \<open>The Batch Controller\<close>

text \<open>The inner loop computes a filter, a conjunction and a list of reports.\<close>

lemma filter_topics_eq:
  "filter_topics lib sd ts (filtered_topics, all_too_old, errors) =
     (filtered_topics @ filter (\<lambda>t. later_than lib sd t \<noteq> Some False) ts,
      all_too_old \<and> list_all (\<lambda>t. later_than lib sd t = Some False) ts,
      errors @ map create_time_raw (filter (\<lambda>t. later_than lib sd t = None) ts))"
proof (induction ts arbitrary: filtered_topics all_too_old errors)
  case Nil
  show ?case by simp
next
  case (Cons t ts)
  show ?case
  proof (cases "later_than lib sd t")
    case None
    then show ?thesis by (simp add: Cons.IH)
  next
    case (Some b)
    then show ?thesis by (cases b) (simp_all add: Cons.IH)
  qed
qed

text \<open>One iteration, by what \<open>get_topics\<close> returned.\<close>

lemma batch_step_no_page:
  assumes "fst (get_topics (net batch) batch_size (end_time st) 5) = None"
  shows "batch_step lib net batch_size start_datetime batch st =
     Break (st\<lparr>requested := requested st @ [end_time st]\<rparr>)"
  using assms by (simp add: batch_step_def)

lemma batch_step_third_short_page:
  assumes "fst (get_topics (net batch) batch_size (end_time st) 5) = Some topics"
    and "int (length topics) < batch_size" and "consecutive_small_batches st + 1 \<ge> 3"
  shows "batch_step lib net batch_size start_datetime batch st =
     Break (st\<lparr>requested := requested st @ [end_time st],
               consecutive_small_batches := consecutive_small_batches st + 1\<rparr>)"
proof -
  have "topics \<noteq> []" using assms(1) by (rule get_topics_nonempty)
  with assms show ?thesis by (simp add: batch_step_def Let_def)
qed

lemma batch_step_unfiltered:
  assumes "fst (get_topics (net batch) batch_size (end_time st) 5) = Some topics"
    and "\<not> (int (length topics) < batch_size \<and> consecutive_small_batches st + 1 \<ge> 3)"
  shows "batch_step lib net batch_size None batch st =
     Continue (st\<lparr>requested := requested st @ [end_time st],
                  consecutive_small_batches :=
                    (if int (length topics) < batch_size then consecutive_small_batches st + 1
                     else 0),
                  all_topics := all_topics st @ topics,
                  end_time := create_time (last topics)\<rparr>)"
proof -
  have "topics \<noteq> []" using assms(1) by (rule get_topics_nonempty)
  with assms show ?thesis by (simp add: batch_step_def Let_def)
qed

lemma batch_step_filtered:
  assumes "fst (get_topics (net batch) batch_size (end_time st) 5) = Some topics"
    and "\<not> (int (length topics) < batch_size \<and> consecutive_small_batches st + 1 \<ge> 3)"
  shows "batch_step lib net batch_size (Some sd) batch st =
     (if list_all (\<lambda>t. later_than lib sd t = Some False) topics then
        Break (st\<lparr>requested := requested st @ [end_time st],
                  consecutive_small_batches :=
                    (if int (length topics) < batch_size then consecutive_small_batches st + 1
                     else 0),
                  parse_errors := parse_errors st
                    @ map create_time_raw (filter (\<lambda>t. later_than lib sd t = None) topics)\<rparr>)
      else
        Continue (st\<lparr>requested := requested st @ [end_time st],
                  consecutive_small_batches :=
                    (if int (length topics) < batch_size then consecutive_small_batches st + 1
                     else 0),
                  parse_errors := parse_errors st
                    @ map create_time_raw (filter (\<lambda>t. later_than lib sd t = None) topics),
                  all_topics := all_topics st
                    @ filter (\<lambda>t. later_than lib sd t \<noteq> Some False) topics,
                  end_time := create_time (last topics)\<rparr>))"
proof -
  have "topics \<noteq> []" using assms(1) by (rule get_topics_nonempty)
  with assms show ?thesis by (simp add: batch_step_def Let_def filter_topics_eq)
qed

text \<open>Every iteration calls \<open>get_topics\<close> once, with the cursor it starts from.\<close>

lemma batch_step_requested:
  "requested (flow_state (batch_step lib net batch_size start_datetime batch st)) =
     requested st @ [end_time st]"
proof (cases "fst (get_topics (net batch) batch_size (end_time st) 5)")
  case None
  then show ?thesis by (simp add: batch_step_no_page)
next
  case (Some topics)
  show ?thesis
  proof (cases "int (length topics) < batch_size \<and> consecutive_small_batches st + 1 \<ge> 3")
    case True
    with Some show ?thesis by (simp add: batch_step_third_short_page)
  next
    case False
    show ?thesis
    proof (cases start_datetime)
      case None
      with Some False show ?thesis by (simp add: batch_step_unfiltered)
    next
      case (Some sd)
      with \<open>fst (get_topics (net batch) batch_size (end_time st) 5) = Some topics\<close> False
      show ?thesis by (simp add: batch_step_filtered)
    qed
  qed
qed

lemma batches_loop_requested_length:
  "length (requested (batches_loop lib net batch_size start_datetime batches st))
     \<le> length (requested st) + length batches"
proof (induction batches arbitrary: st)
  case Nil
  show ?case by simp
next
  case (Cons batch rest)
  have one: "length (requested (flow_state (batch_step lib net batch_size start_datetime batch st)))
      = length (requested st) + 1"
    by (simp add: batch_step_requested)
  show ?case
  proof (cases "batch_step lib net batch_size start_datetime batch st")
    case (Continue st')
    with one have "length (requested st') = length (requested st) + 1" by simp
    with Cons.IH [of st'] Continue show ?thesis by simp
  next
    case (Break st')
    with one show ?thesis by simp
  qed
qed

text \<open>
  C8. With \<open>batch_size > 0\<close> the function returns, having called \<open>get_topics\<close> at most
  \<open>total_count // batch_size\<close> times, whatever the pages held and however many records
  were kept: the bound is the length of \<open>range(batches_needed)\<close>, fixed before the first
  call (for a negative \<open>total_count\<close> the range is empty). When
  \<open>total_count // batch_size = 0\<close> it returns the empty list without any call.
\<close>

theorem page_requests_bounded:
  assumes "0 < batch_size"
  shows "\<exists>st. run_batches lib net total_count batch_size start_time = Inr st
    \<and> get_topics_in_batches lib net total_count batch_size start_time = Inr (all_topics st)
    \<and> length (requested st) \<le> nat (total_count div batch_size)
    \<and> (0 \<le> total_count \<longrightarrow> int (length (requested st)) \<le> total_count div batch_size)
    \<and> (total_count div batch_size = 0 \<longrightarrow> requested st = [] \<and> all_topics st = [])"
proof -
  let ?n = "nat (total_count div batch_size)"
  let ?st = "batches_loop lib net batch_size (parse_start_time lib start_time) [0 ..< ?n]
      initial_state"
  have run: "run_batches lib net total_count batch_size start_time = Inr ?st"
    using assms by (simp add: run_batches_def)
  have "length (requested ?st) \<le> length (requested initial_state) + length [0 ..< ?n]"
    by (rule batches_loop_requested_length)
  then have bound: "length (requested ?st) \<le> ?n" by (simp add: initial_state_def)
  have "0 \<le> total_count div batch_size" if "0 \<le> total_count"
    using that assms by (simp add: pos_imp_zdiv_nonneg_iff)
  with bound have int_bound:
    "0 \<le> total_count \<longrightarrow> int (length (requested ?st)) \<le> total_count div batch_size"
    by auto
  have zero: "total_count div batch_size = 0 \<longrightarrow> requested ?st = [] \<and> all_topics ?st = []"
    by (simp add: initial_state_def)
  have "get_topics_in_batches lib net total_count batch_size start_time = Inr (all_topics ?st)"
    by (simp add: get_topics_in_batches_def run)
  with run bound int_bound zero show ?thesis by blast
qed

text \<open>
  With \<open>total_count = 45\<close> and \<open>batch_size = 20\<close> on an upstream of five full pages, two
  pages are requested; with \<open>total_count = 19\<close>, none.
\<close>

theorem page_requests_bounded_witness:
  "(0::int) < 20
   \<and> map_sum id (\<lambda>st. length (requested st))
        (run_batches canonical_lib (serve (replicate 5 (page_of_size 20))) 45 20 None) = Inr 2
   \<and> get_topics_in_batches canonical_lib (serve (replicate 5 (page_of_size 20))) 19 20 None = Inr []"
proof -
  have "map_sum id (\<lambda>st. length (requested st))
      (run_batches canonical_lib (serve (replicate 5 (page_of_size 20))) 45 20 None) = Inr 2"
    by code_simp
  moreover
  from page_requests_bounded [of 20 canonical_lib "serve (replicate 5 (page_of_size 20))" 19 None]
  have "get_topics_in_batches canonical_lib (serve (replicate 5 (page_of_size 20))) 19 20 None
      = Inr []"
    by auto
  ultimately show ?thesis by simp
qed

text \<open>The scripted upstream hands out its pages.\<close>

lemma get_topics_serve:
  assumes "b < length pages" and "pages ! b \<noteq> []" and "0 \<le> max_retries"
  shows "fst (get_topics (serve pages b) cnt et max_retries) = Some (pages ! b)"
  unfolding get_topics_def using assms
  by (subst get_topics_loop_unfold) (simp add: serve_def ok_page_def)

text \<open>The counter after an iteration that got a page, whether the loop goes on or not.\<close>

lemma batch_step_counter:
  assumes "fst (get_topics (net batch) batch_size (end_time st) 5) = Some topics"
  shows "consecutive_small_batches
      (flow_state (batch_step lib net batch_size start_datetime batch st)) =
     (if int (length topics) < batch_size then consecutive_small_batches st + 1 else 0)"
proof (cases "int (length topics) < batch_size \<and> consecutive_small_batches st + 1 \<ge> 3")
  case True
  with assms show ?thesis by (simp add: batch_step_third_short_page)
next
  case False
  show ?thesis
  proof (cases start_datetime)
    case None
    with assms False show ?thesis by (simp add: batch_step_unfiltered)
  next
    case (Some sd)
    with assms False show ?thesis by (simp add: batch_step_filtered)
  qed
qed

lemma batch_step_unfiltered_continue:
  assumes "fst (get_topics (net batch) batch_size (end_time st) 5) = Some topics"
    and "\<not> (int (length topics) < batch_size \<and> consecutive_small_batches st + 1 \<ge> 3)"
  shows "\<exists>st'. batch_step lib net batch_size None batch st = Continue st'
    \<and> consecutive_small_batches st' =
        (if int (length topics) < batch_size then consecutive_small_batches st + 1 else 0)
    \<and> length (requested st') = length (requested st) + 1"
  using assms by (simp add: batch_step_unfiltered)

text \<open>
  Pages of sizes 20, 20, 5, 5, 5 with \<open>batch_size = 20\<close> and no start time: the fifth
  iteration leaves the loop, whatever the budget and whatever the upstream would answer
  next.
\<close>

lemma five_pages_then_stop:
  assumes pages: "\<And>b et. b < 5 \<Longrightarrow>
      \<exists>page. fst (get_topics (net b) 20 et 5) = Some page
        \<and> int (length page) = [20, 20, 5, 5, 5] ! b"
    and budget: "5 \<le> n"
  shows "length (requested (batches_loop lib net 20 None [0 ..< n] initial_state)) = 5"
proof -
  let ?loop = "batches_loop lib net 20 None"
  let ?step = "batch_step lib net 20 None"
  have first_five: "[0 ..< 5] = [0, 1, 2, 3, 4 :: nat]"
    by (simp add: upt_rec)
  have "[0 ..< 5 + (n - 5)] = [0 ..< 5] @ [5 ..< 5 + (n - 5)]"
    by (rule upt_add_eq_append) simp
  with first_five budget have batches: "[0 ..< n] = 0 # 1 # 2 # 3 # 4 # [5 ..< n]"
    by simp
  have c0: "consecutive_small_batches initial_state = 0"
    and r0: "length (requested initial_state) = 0"
    by (simp_all add: initial_state_def)
  \<comment> \<open>first page: full\<close>
  from pages [of 0 "end_time initial_state"] obtain p0
    where p0: "fst (get_topics (net 0) 20 (end_time initial_state) 5) = Some p0"
      and l0: "int (length p0) = 20" by auto
  from l0 have "\<not> (int (length p0) < 20 \<and> consecutive_small_batches initial_state + 1 \<ge> 3)"
    by simp
  from batch_step_unfiltered_continue [where net = net and batch = 0 and lib = lib, OF p0 this]
  obtain st1 where s0: "?step 0 initial_state = Continue st1"
    and c1: "consecutive_small_batches st1 = 0" and r1: "length (requested st1) = 1"
    using l0 r0 by auto
  \<comment> \<open>second page: full\<close>
  from pages [of 1 "end_time st1"] obtain p1
    where p1: "fst (get_topics (net 1) 20 (end_time st1) 5) = Some p1"
      and l1: "int (length p1) = 20" by auto
  from l1 have "\<not> (int (length p1) < 20 \<and> consecutive_small_batches st1 + 1 \<ge> 3)"
    by simp
  from batch_step_unfiltered_continue [where net = net and batch = 1 and lib = lib, OF p1 this]
  obtain st2 where s1: "?step 1 st1 = Continue st2"
    and c2: "consecutive_small_batches st2 = 0" and r2: "length (requested st2) = 2"
    using l1 r1 by auto
  \<comment> \<open>third page: the first short one\<close>
  from pages [of 2 "end_time st2"] obtain p2
    where p2: "fst (get_topics (net 2) 20 (end_time st2) 5) = Some p2"
      and l2: "int (length p2) = 5" by auto
  from c2 have "\<not> (int (length p2) < 20 \<and> consecutive_small_batches st2 + 1 \<ge> 3)"
    by simp
  from batch_step_unfiltered_continue [where net = net and batch = 2 and lib = lib, OF p2 this]
  obtain st3 where s2: "?step 2 st2 = Continue st3"
    and c3: "consecutive_small_batches st3 = 1" and r3: "length (requested st3) = 3"
    using l2 c2 r2 by auto
  \<comment> \<open>fourth page: the second short one\<close>
  from pages [of 3 "end_time st3"] obtain p3
    where p3: "fst (get_topics (net 3) 20 (end_time st3) 5) = Some p3"
      and l3: "int (length p3) = 5" by auto
  from c3 have "\<not> (int (length p3) < 20 \<and> consecutive_small_batches st3 + 1 \<ge> 3)"
    by simp
  from batch_step_unfiltered_continue [where net = net and batch = 3 and lib = lib, OF p3 this]
  obtain st4 where s3: "?step 3 st3 = Continue st4"
    and c4: "consecutive_small_batches st4 = 2" and r4: "length (requested st4) = 4"
    using l3 c3 r3 by auto
  \<comment> \<open>fifth page: the third short one\<close>
  from pages [of 4 "end_time st4"] obtain p4
    where p4: "fst (get_topics (net 4) 20 (end_time st4) 5) = Some p4"
      and l4: "int (length p4) = 5" by auto
  have short: "int (length p4) < 20" and third: "consecutive_small_batches st4 + 1 \<ge> 3"
    using l4 c4 by simp_all
  define st5 where "st5 = st4\<lparr>requested := requested st4 @ [end_time st4],
      consecutive_small_batches := consecutive_small_batches st4 + 1\<rparr>"
  have s4: "?step 4 st4 = Break st5"
    unfolding st5_def
    by (rule batch_step_third_short_page [where net = net and batch = 4, OF p4 short third])
  have r5: "length (requested st5) = 5"
    unfolding st5_def using r4 by simp
  have "?loop [0 ..< n] initial_state = st5"
    unfolding batches using s0 s1 s2 s3 s4 by simp
  with r5 show ?thesis by simp
qed

text \<open>
  C3. In an iteration that got a page, \<open>consecutive_small_batches\<close> becomes one more
  than it was when the page has fewer than \<open>batch_size\<close> topics and 0 otherwise, and the
  loop is left when a short page brings it to 3. For pages of sizes 20, 20, 5, 5, 5 with
  \<open>batch_size = 20\<close>, a budget of at least five pages and no start time, \<open>get_topics\<close>
  is called exactly five times: there is no sixth request.
\<close>

theorem consecutive_short_pages:
  "(fst (get_topics (net batch) batch_size (end_time st) 5) = Some topics \<longrightarrow>
      consecutive_small_batches
          (flow_state (batch_step lib net batch_size start_datetime batch st)) =
        (if int (length topics) < batch_size then consecutive_small_batches st + 1 else 0)
      \<and> (int (length topics) < batch_size \<and> consecutive_small_batches st + 1 \<ge> 3 \<longrightarrow>
            is_break (batch_step lib net batch_size start_datetime batch st)))
   \<and> ((\<forall>b<5. \<forall>et. \<exists>page. fst (get_topics (net b) 20 et 5) = Some page
            \<and> int (length page) = [20, 20, 5, 5, 5] ! b)
        \<and> 5 \<le> total_count div 20 \<longrightarrow>
       (\<exists>st'. run_batches lib net total_count 20 None = Inr st'
          \<and> length (requested st') = 5))"
proof (intro conjI impI)
  assume "fst (get_topics (net batch) batch_size (end_time st) 5) = Some topics"
  then show "consecutive_small_batches
          (flow_state (batch_step lib net batch_size start_datetime batch st)) =
        (if int (length topics) < batch_size then consecutive_small_batches st + 1 else 0)"
    by (rule batch_step_counter)
next
  assume "fst (get_topics (net batch) batch_size (end_time st) 5) = Some topics"
    and "int (length topics) < batch_size \<and> consecutive_small_batches st + 1 \<ge> 3"
  then show "is_break (batch_step lib net batch_size start_datetime batch st)"
    by (simp add: batch_step_third_short_page)
next
  assume a: "(\<forall>b<5. \<forall>et. \<exists>page. fst (get_topics (net b) 20 et 5) = Some page
            \<and> int (length page) = [20, 20, 5, 5, 5] ! b)
        \<and> 5 \<le> total_count div 20"
  from a have "5 \<le> total_count div 20" by (rule conjunct2)
  then have budget: "5 \<le> nat (total_count div 20)" by simp
  from a have pages: "\<And>b et. b < 5 \<Longrightarrow>
      \<exists>page. fst (get_topics (net b) 20 et 5) = Some page
        \<and> int (length page) = [20, 20, 5, 5, 5] ! b"
    by blast
  have "length (requested
      (batches_loop lib net 20 None [0 ..< nat (total_count div 20)] initial_state)) = 5"
    using pages budget by (rule five_pages_then_stop)
  then show "\<exists>st'. run_batches lib net total_count 20 None = Inr st'
      \<and> length (requested st') = 5"
    by (simp add: run_batches_def parse_start_time_def)
qed

text \<open>
  An upstream with seven pages, of sizes 20, 20, 5, 5, 5, 20, 20, and a budget of ten:
  five requests, and the counter stands at 3 in the iteration that stops.
\<close>

theorem consecutive_short_pages_witness:
  "fst (get_topics (serve (map page_of_size [20, 20, 5, 5, 5, 20, 20]) 4) 20
       (end_time (initial_state\<lparr>consecutive_small_batches := 2\<rparr>)) 5) = Some (page_of_size 5)
   \<and> consecutive_small_batches
       (flow_state (batch_step canonical_lib (serve (map page_of_size [20, 20, 5, 5, 5, 20, 20]))
          20 None 4 (initial_state\<lparr>consecutive_small_batches := 2\<rparr>))) = 3
   \<and> is_break (batch_step canonical_lib (serve (map page_of_size [20, 20, 5, 5, 5, 20, 20]))
        20 None 4 (initial_state\<lparr>consecutive_small_batches := 2\<rparr>))
   \<and> (5::int) \<le> 200 div 20
   \<and> (\<exists>st'. run_batches canonical_lib (serve (map page_of_size [20, 20, 5, 5, 5, 20, 20]))
          200 20 None = Inr st' \<and> length (requested st') = 5)"
proof -
  let ?net = "serve (map page_of_size [20, 20, 5, 5, 5, 20, 20])"
  let ?st = "initial_state\<lparr>consecutive_small_batches := 2\<rparr>"
  note contract =
    consecutive_short_pages [of ?net 4 20 ?st "page_of_size 5" canonical_lib None 200]
  have page: "fst (get_topics (?net 4) 20 (end_time ?st) 5) = Some (page_of_size 5)"
    by (simp add: get_topics_serve page_of_size_def)
  have short: "int (length (page_of_size 5)) < 20 \<and> consecutive_small_batches ?st + 1 \<ge> 3"
    by (simp add: page_of_size_def initial_state_def)
  have pages: "(\<forall>b<5. \<forall>et. \<exists>page. fst (get_topics (?net b) 20 et 5) = Some page
      \<and> int (length page) = [20, 20, 5, 5, 5] ! b) \<and> (5::int) \<le> 200 div 20"
  proof (intro conjI allI impI)
    fix b :: nat and et
    assume "b < 5"
    then have "b = 0 \<or> b = 1 \<or> b = 2 \<or> b = 3 \<or> b = 4" by arith
    then show "\<exists>page. fst (get_topics (?net b) 20 et 5) = Some page
        \<and> int (length page) = [20, 20, 5, 5, 5] ! b"
      by (elim disjE; hypsubst; simp add: get_topics_serve page_of_size_def)
  qed simp
  from contract [THEN conjunct1] page
  have counter: "consecutive_small_batches
        (flow_state (batch_step canonical_lib ?net 20 None 4 ?st)) =
      (if int (length (page_of_size 5)) < 20 then consecutive_small_batches ?st + 1 else 0)
      \<and> (int (length (page_of_size 5)) < 20 \<and> consecutive_small_batches ?st + 1 \<ge> 3 \<longrightarrow>
          is_break (batch_step canonical_lib ?net 20 None 4 ?st))"
    by (rule mp)
  from counter [THEN conjunct2] short
  have stop: "is_break (batch_step canonical_lib ?net 20 None 4 ?st)"
    by (rule mp)
  have three: "consecutive_small_batches
      (flow_state (batch_step canonical_lib ?net 20 None 4 ?st)) = 3"
    using counter [THEN conjunct1] short by (simp add: initial_state_def)
  from contract [THEN conjunct2] pages
  have run: "\<exists>st'. run_batches canonical_lib ?net 200 20 None = Inr st'
      \<and> length (requested st') = 5"
    by (rule mp)
  have budget: "(5::int) \<le> 200 div 20" by simp
  from page three stop budget run show ?thesis by (intro conjI)
qed

text \<open>
  C4. With a start time set, when every topic of the page has a timestamp that parses
  and is not later than the start time, the iteration leaves the loop: nothing of the
  page is added to \<open>all_topics\<close>, and \<open>get_topics\<close> is not called again, whatever
  batches the budget still holds.
\<close>

theorem end_of_window_stop:
  assumes "fst (get_topics (net batch) batch_size (end_time st) 5) = Some topics"
    and "\<forall>t\<in>set topics. \<exists>d. topic_datetime lib t = Some d \<and> dt_gt d sd = Some False"
  shows "is_break (batch_step lib net batch_size (Some sd) batch st)
    \<and> all_topics (flow_state (batch_step lib net batch_size (Some sd) batch st)) = all_topics st
    \<and> batches_loop lib net batch_size (Some sd) (batch # rest) st =
        flow_state (batch_step lib net batch_size (Some sd) batch st)
    \<and> all_topics (batches_loop lib net batch_size (Some sd) (batch # rest) st) = all_topics st
    \<and> requested (batches_loop lib net batch_size (Some sd) (batch # rest) st) =
        requested st @ [end_time st]"
proof -
  let ?step = "batch_step lib net batch_size (Some sd) batch st"
  have old: "list_all (\<lambda>t. later_than lib sd t = Some False) topics"
    using assms(2) by (auto simp: list_all_iff later_than_def)
  have "is_break ?step \<and> all_topics (flow_state ?step) = all_topics st"
  proof (cases "int (length topics) < batch_size \<and> consecutive_small_batches st + 1 \<ge> 3")
    case True
    with assms(1) show ?thesis by (simp add: batch_step_third_short_page)
  next
    case False
    with assms(1) old show ?thesis by (simp add: batch_step_filtered)
  qed
  then have stop: "is_break ?step" and same: "all_topics (flow_state ?step) = all_topics st"
    by simp_all
  from stop have loop: "batches_loop lib net batch_size (Some sd) (batch # rest) st =
      flow_state ?step"
    by (cases ?step) simp_all
  have "requested (flow_state ?step) = requested st @ [end_time st]"
    by (rule batch_step_requested)
  with stop same loop show ?thesis by simp
qed

text \<open>
  A page holding only the post of 31 December 2023, with the start time 1 January 2024
  and two more pages upstream: one request, nothing kept.
\<close>

theorem end_of_window_stop_witness:
  "fst (get_topics (serve [[old_post], [new_post], [new_post]] 0) 1 (end_time initial_state) 5)
     = Some [old_post]
   \<and> topic_datetime canonical_lib old_post =
       Some \<lparr>year = 2023, month = 12, day = 31, hour = 23, minute = 59, second = 59,
             microsecond = 0, tzinfo = Some 28800000000\<rparr>
   \<and> dt_gt \<lparr>year = 2023, month = 12, day = 31, hour = 23, minute = 59, second = 59,
             microsecond = 0, tzinfo = Some 28800000000\<rparr> bound_2024 = Some False
   \<and> is_break (batch_step canonical_lib (serve [[old_post], [new_post], [new_post]]) 1
        (Some bound_2024) 0 initial_state)
   \<and> all_topics (batches_loop canonical_lib (serve [[old_post], [new_post], [new_post]]) 1
        (Some bound_2024) [0, 1, 2] initial_state) = []
   \<and> requested (batches_loop canonical_lib (serve [[old_post], [new_post], [new_post]]) 1
        (Some bound_2024) [0, 1, 2] initial_state) = [None]"
proof -
  let ?net = "serve [[old_post], [new_post], [new_post]]"
  let ?d = "\<lparr>year = 2023, month = 12, day = 31, hour = 23, minute = 59, second = 59,
             microsecond = 0, tzinfo = Some 28800000000\<rparr>"
  have page: "fst (get_topics (?net 0) 1 (end_time initial_state) 5) = Some [old_post]"
    by (simp add: get_topics_serve)
  have parsed: "topic_datetime canonical_lib old_post = Some ?d"
    by code_simp
  have older: "dt_gt ?d bound_2024 = Some False"
    by code_simp
  from parsed older
  have old: "\<forall>t\<in>set [old_post]. \<exists>d. topic_datetime canonical_lib t = Some d
      \<and> dt_gt d bound_2024 = Some False"
    by simp
  note stop = end_of_window_stop [where net = ?net and batch = 0 and rest = "[1, 2]", OF page old]
  have "is_break (batch_step canonical_lib ?net 1 (Some bound_2024) 0 initial_state)"
    using stop by (rule conjunct1)
  moreover have "all_topics (batches_loop canonical_lib ?net 1 (Some bound_2024) [0, 1, 2]
      initial_state) = all_topics initial_state"
    using stop by blast
  then have "all_topics (batches_loop canonical_lib ?net 1 (Some bound_2024) [0, 1, 2]
      initial_state) = []"
    by (rule trans) (simp add: initial_state_def)
  moreover have "requested (batches_loop canonical_lib ?net 1 (Some bound_2024) [0, 1, 2]
      initial_state) = requested initial_state @ [end_time initial_state]"
    using stop by blast
  then have "requested (batches_loop canonical_lib ?net 1 (Some bound_2024) [0, 1, 2]
      initial_state) = [None]"
    by (rule trans) (simp add: initial_state_def)
  ultimately show ?thesis using page parsed older by (intro conjI)
qed

text \<open>
  C10. With a start time set, a topic of the page whose timestamp \<open>strptime\<close> rejects
  is appended to \<open>filtered_topics\<close>, its timestamp is reported through \<open>logger.error\<close>,
  and \<open>all_too_old\<close> is false after the inner loop. So the iteration does not stop for
  the end of the window: unless the page is the third short one in a row, the loop goes
  on, with the topic in \<open>all_topics\<close>.
\<close>

theorem unparsed_timestamp_kept:
  assumes "t \<in> set topics" and "topic_datetime lib t = None"
  shows "(\<forall>filtered_topics all_too_old errors.
            t \<in> set (fst (filter_topics lib sd topics (filtered_topics, all_too_old, errors)))
          \<and> \<not> fst (snd (filter_topics lib sd topics (filtered_topics, all_too_old, errors)))
          \<and> create_time_raw t
              \<in> set (snd (snd (filter_topics lib sd topics (filtered_topics, all_too_old, errors)))))
    \<and> (fst (get_topics (net batch) batch_size (end_time st) 5) = Some topics
        \<and> \<not> (int (length topics) < batch_size \<and> consecutive_small_batches st + 1 \<ge> 3) \<longrightarrow>
        (\<exists>st'. batch_step lib net batch_size (Some sd) batch st = Continue st'
           \<and> t \<in> set (all_topics st') \<and> create_time_raw t \<in> set (parse_errors st')))"
proof -
  have unparsed: "later_than lib sd t = None"
    using assms(2) by (simp add: later_than_def)
  with assms(1) have not_old: "\<not> list_all (\<lambda>t. later_than lib sd t = Some False) topics"
    by (auto simp: list_all_iff intro!: bexI [of _ t])
  from unparsed assms(1)
  have kept: "t \<in> set (filter (\<lambda>t. later_than lib sd t \<noteq> Some False) topics)"
    and logged: "create_time_raw t
      \<in> set (map create_time_raw (filter (\<lambda>t. later_than lib sd t = None) topics))"
    by simp_all
  have inner: "\<forall>filtered_topics all_too_old errors.
      t \<in> set (fst (filter_topics lib sd topics (filtered_topics, all_too_old, errors)))
      \<and> \<not> fst (snd (filter_topics lib sd topics (filtered_topics, all_too_old, errors)))
      \<and> create_time_raw t
          \<in> set (snd (snd (filter_topics lib sd topics (filtered_topics, all_too_old, errors))))"
    using kept logged not_old by (simp add: filter_topics_eq)
  have outer: "\<exists>st'. batch_step lib net batch_size (Some sd) batch st = Continue st'
      \<and> t \<in> set (all_topics st') \<and> create_time_raw t \<in> set (parse_errors st')"
    if "fst (get_topics (net batch) batch_size (end_time st) 5) = Some topics
        \<and> \<not> (int (length topics) < batch_size \<and> consecutive_small_batches st + 1 \<ge> 3)"
    using that kept logged not_old by (simp add: batch_step_filtered)
  from inner outer show ?thesis by blast
qed

text \<open>
  A page of the old post and the post with the odd timestamp, start time 1 January 2024:
  the old post is dropped, the odd one is kept and reported, and the loop goes on.
\<close>

theorem unparsed_timestamp_kept_witness:
  "odd_post \<in> set [old_post, odd_post]
   \<and> topic_datetime canonical_lib odd_post = None
   \<and> filter_topics canonical_lib bound_2024 [old_post, odd_post] ([], True, [])
       = ([odd_post], False, [''2023-12-31 23:59:59''])
   \<and> fst (get_topics (serve [[old_post, odd_post]] 0) 2 (end_time initial_state) 5)
       = Some [old_post, odd_post]
   \<and> (\<exists>st'. batch_step canonical_lib (serve [[old_post, odd_post]]) 2 (Some bound_2024) 0
          initial_state = Continue st'
        \<and> odd_post \<in> set (all_topics st')
        \<and> create_time_raw odd_post \<in> set (parse_errors st'))"
proof -
  let ?net = "serve [[old_post, odd_post]]"
  have member: "odd_post \<in> set [old_post, odd_post]" by simp
  have unparsed: "topic_datetime canonical_lib odd_post = None" by code_simp
  have inner: "filter_topics canonical_lib bound_2024 [old_post, odd_post] ([], True, [])
      = ([odd_post], False, [''2023-12-31 23:59:59''])"
    by code_simp
  have page: "fst (get_topics (?net 0) 2 (end_time initial_state) 5) = Some [old_post, odd_post]"
    by (simp add: get_topics_serve)
  have not_third: "\<not> (int (length [old_post, odd_post]) < 2
      \<and> consecutive_small_batches initial_state + 1 \<ge> 3)"
    by simp
  note kept = unparsed_timestamp_kept [where net = ?net and batch = 0 and st = initial_state
      and batch_size = 2 and sd = bound_2024, OF member unparsed]
  from kept [THEN conjunct2] page not_third
  have "\<exists>st'. batch_step canonical_lib ?net 2 (Some bound_2024) 0 initial_state = Continue st'
      \<and> odd_post \<in> set (all_topics st') \<and> create_time_raw odd_post \<in> set (parse_errors st')"
    by blast
  with member unparsed inner page show ?thesis by (intro conjI)
qed

text \<open>With a start time, an iteration adds only topics the filter does not reject.\<close>

lemma batch_step_kept:
  assumes "t \<in> set (all_topics (flow_state (batch_step lib net batch_size (Some sd) batch st)))"
  shows "t \<in> set (all_topics st) \<or> later_than lib sd t \<noteq> Some False"
proof (cases "fst (get_topics (net batch) batch_size (end_time st) 5)")
  case None
  with assms show ?thesis by (simp add: batch_step_no_page)
next
  case (Some topics)
  show ?thesis
  proof (cases "int (length topics) < batch_size \<and> consecutive_small_batches st + 1 \<ge> 3")
    case True
    with Some assms show ?thesis by (simp add: batch_step_third_short_page)
  next
    case False
    with Some assms show ?thesis
      by (auto simp: batch_step_filtered split: if_splits)
  qed
qed

lemma batches_loop_kept:
  assumes "t \<in> set (all_topics (batches_loop lib net batch_size (Some sd) batches st))"
  shows "t \<in> set (all_topics st) \<or> later_than lib sd t \<noteq> Some False"
  using assms
proof (induction batches arbitrary: st)
  case Nil
  then show ?case by simp
next
  case (Cons batch rest)
  show ?case
  proof (cases "batch_step lib net batch_size (Some sd) batch st")
    case (Continue st')
    with Cons.prems have "t \<in> set (all_topics (batches_loop lib net batch_size (Some sd) rest st'))"
      by simp
    then have "t \<in> set (all_topics st') \<or> later_than lib sd t \<noteq> Some False"
      by (rule Cons.IH)
    moreover have "t \<in> set (all_topics st) \<or> later_than lib sd t \<noteq> Some False"
      if "t \<in> set (all_topics st')"
      using that Continue batch_step_kept [of t lib net batch_size sd batch st] by simp
    ultimately show ?thesis by blast
  next
    case (Break st')
    with Cons.prems have "t \<in> set (all_topics st')" by simp
    with Break show ?thesis
      using batch_step_kept [of t lib net batch_size sd batch st] by simp
  qed
qed

text \<open>
  C1, as the code has it. With a start time that parses to \<open>B\<close>, every topic the function
  returns has a timestamp that parses to a datetime later than \<open>B\<close>, or a timestamp that
  \<open>strptime\<close> rejects, or one whose comparison with \<open>B\<close> raises: the \<open>except\<close> branch of
  line 283 keeps the topic in the last two cases, whatever \<open>B\<close> is.
\<close>

theorem kept_records_later_or_unparsed:
  assumes "parse_start_time lib start_time = Some B"
    and "get_topics_in_batches lib net total_count batch_size start_time = Inr kept"
    and "t \<in> set kept"
  shows "(\<exists>d. topic_datetime lib t = Some d \<and> dt_gt d B = Some True)
    \<or> topic_datetime lib t = None
    \<or> (\<exists>d. topic_datetime lib t = Some d \<and> dt_gt d B = None)"
proof -
  from assms(2) have nonzero: "batch_size \<noteq> 0"
    by (auto simp: get_topics_in_batches_def run_batches_def split: if_splits)
  with assms(1,2)
  have "kept = all_topics (batches_loop lib net batch_size (Some B)
      [0 ..< nat (total_count div batch_size)] initial_state)"
    by (simp add: get_topics_in_batches_def run_batches_def)
  with assms(3) have "t \<in> set (all_topics initial_state) \<or> later_than lib B t \<noteq> Some False"
    using batches_loop_kept by blast
  then have "later_than lib B t \<noteq> Some False"
    by (simp add: initial_state_def)
  then show ?thesis
    by (cases "topic_datetime lib t"; cases "later_than lib B t")
      (auto simp: later_than_def)
qed

text \<open>
  The start time \<open>2024-01-01\<close> and one page with the three posts: the post of 2 January
  is kept for its date, the post of 31 December is dropped, and the post with the odd
  timestamp is kept although \<open>strptime\<close> rejects it.
\<close>

theorem kept_records_later_or_unparsed_witness:
  "parse_start_time canonical_lib (Some ''2024-01-01'') = Some bound_2024
   \<and> get_topics_in_batches canonical_lib (serve [[new_post, old_post, odd_post]]) 20 20
        (Some ''2024-01-01'') = Inr [new_post, odd_post]
   \<and> new_post \<in> set [new_post, odd_post]
   \<and> ((\<exists>d. topic_datetime canonical_lib new_post = Some d \<and> dt_gt d bound_2024 = Some True)
      \<or> topic_datetime canonical_lib new_post = None
      \<or> (\<exists>d. topic_datetime canonical_lib new_post = Some d \<and> dt_gt d bound_2024 = None))
   \<and> later_than canonical_lib bound_2024 new_post = Some True"
proof -
  have bound: "parse_start_time canonical_lib (Some ''2024-01-01'') = Some bound_2024"
    by code_simp
  have run: "get_topics_in_batches canonical_lib (serve [[new_post, old_post, odd_post]]) 20 20
      (Some ''2024-01-01'') = Inr [new_post, odd_post]"
    by code_simp
  have member: "new_post \<in> set [new_post, odd_post]" by simp
  have later: "later_than canonical_lib bound_2024 new_post = Some True" by code_simp
  from kept_records_later_or_unparsed [OF bound run member] bound run member later
  show ?thesis by (intro conjI)
qed

text \<open>
  C1 as stated fails on the same input: the post with the odd timestamp is among the
  topics returned, and it has no creation time later than the start time.
\<close>

theorem kept_records_later_counterexample:
  "parse_start_time canonical_lib (Some ''2024-01-01'') = Some bound_2024
   \<and> get_topics_in_batches canonical_lib (serve [[new_post, old_post, odd_post]]) 20 20
        (Some ''2024-01-01'') = Inr [new_post, odd_post]
   \<and> create_time odd_post = Some ''2023-12-31 23:59:59''
   \<and> topic_datetime canonical_lib odd_post = None
   \<and> later_than canonical_lib bound_2024 odd_post \<noteq> Some True"
  by code_simp

subsection \<open>The cursor\<close>

lemma dt_gt_trans:
  assumes "dt_gt a b = Some True" and "dt_gt b c = Some True"
  shows "dt_gt a c = Some True"
  using assms by (auto simp: dt_gt_def split: option.splits)

lemma older_trans:
  assumes "older lib a b" and "older lib b c"
  shows "older lib a c"
proof -
  from assms obtain da db dc
    where "timestamp_datetime lib a = Some da" "timestamp_datetime lib b = Some db"
      "timestamp_datetime lib c = Some dc"
      and "dt_gt db da = Some True" "dt_gt dc db = Some True"
    by (auto simp: older_def split: option.splits)
  then show ?thesis using dt_gt_trans [of dc db da] by (simp add: older_def)
qed

text \<open>An iteration that goes on has got a page, and its last topic gives the next cursor.\<close>

lemma batch_step_continue:
  assumes "batch_step lib net batch_size start_datetime batch st = Continue st'"
  shows "\<exists>topics. fst (get_topics (net batch) batch_size (end_time st) 5) = Some topics
    \<and> topics \<noteq> []
    \<and> end_time st' = create_time (last topics)
    \<and> requested st' = requested st @ [end_time st]"
proof (cases "fst (get_topics (net batch) batch_size (end_time st) 5)")
  case None
  with assms show ?thesis by (simp add: batch_step_no_page)
next
  case (Some topics)
  then have nonempty: "topics \<noteq> []" by (rule get_topics_nonempty)
  show ?thesis
  proof (cases "int (length topics) < batch_size \<and> consecutive_small_batches st + 1 \<ge> 3")
    case True
    with Some assms show ?thesis by (simp add: batch_step_third_short_page)
  next
    case False
    show ?thesis
    proof (cases start_datetime)
      case None
      with Some False assms nonempty show ?thesis
        by (auto simp: batch_step_unfiltered)
    next
      case (Some sd)
      with \<open>fst (get_topics (net batch) batch_size (end_time st) 5) = Some topics\<close> False assms
        nonempty
      show ?thesis by (auto simp: batch_step_filtered split: if_splits)
    qed
  qed
qed

text \<open>
  The cursors of a run, when every page ends in a topic whose timestamp parses and is
  older than the cursor the page was requested with.
\<close>

lemma batches_loop_cursors:
  assumes pages: "\<forall>b et page. fst (get_topics (net b) batch_size et 5) = Some page \<longrightarrow>
      (\<exists>s. create_time (last page) = Some s \<and> timestamp_datetime lib s \<noteq> None
        \<and> (\<forall>c. et = Some c \<and> timestamp_datetime lib c \<noteq> None \<longrightarrow> older lib s c))"
    and inv: "requested st @ [end_time st] = None # map Some cs" "descending_cursors lib cs"
  shows "\<exists>cs'. (requested (batches_loop lib net batch_size start_datetime batches st) = []
        \<or> requested (batches_loop lib net batch_size start_datetime batches st)
            = None # map Some cs')
      \<and> descending_cursors lib cs'"
  using inv
proof (induction batches arbitrary: st cs)
  case Nil
  show ?case
  proof (cases cs rule: rev_cases)
    case Nil
    with Nil.prems(1) have "requested st = []" by simp
    moreover have "descending_cursors lib []" by (simp add: descending_cursors_def)
    ultimately show ?thesis by auto
  next
    case (snoc cs0 c)
    with Nil.prems(1) have "requested st @ [end_time st] = (None # map Some cs0) @ [Some c]"
      by simp
    then have "requested st = None # map Some cs0" by (simp only: append1_eq_conv)
    moreover from Nil.prems(2) snoc have "descending_cursors lib cs0"
      by (simp add: descending_cursors_def sorted_wrt_append)
    ultimately show ?thesis by auto
  qed
next
  case (Cons batch rest)
  let ?step = "batch_step lib net batch_size start_datetime batch st"
  have req: "requested (flow_state ?step) = None # map Some cs"
    using Cons.prems(1) by (simp add: batch_step_requested)
  show ?case
  proof (cases ?step)
    case (Break st')
    with req have "requested (batches_loop lib net batch_size start_datetime (batch # rest) st)
        = None # map Some cs"
      by simp
    with Cons.prems(2) show ?thesis by blast
  next
    case (Continue st')
    from batch_step_continue [OF Continue] obtain topics
      where page: "fst (get_topics (net batch) batch_size (end_time st) 5) = Some topics"
        and cursor: "end_time st' = create_time (last topics)"
        and req': "requested st' = requested st @ [end_time st]"
      by blast
    from pages page obtain s
      where s: "create_time (last topics) = Some s" "timestamp_datetime lib s \<noteq> None"
        and below: "\<And>c. end_time st = Some c \<Longrightarrow> timestamp_datetime lib c \<noteq> None
          \<Longrightarrow> older lib s c"
      by blast
    have older_all: "older lib s x" if "x \<in> set cs" for x
    proof (cases cs rule: rev_cases)
      case Nil
      with that show ?thesis by simp
    next
      case (snoc cs0 c)
      with Cons.prems(1) have "requested st @ [end_time st] = (None # map Some cs0) @ [Some c]"
        by simp
      then have last_cursor: "end_time st = Some c" by (simp only: append1_eq_conv)
      from Cons.prems(2) snoc have "timestamp_datetime lib c \<noteq> None"
        by (simp add: descending_cursors_def)
      with last_cursor have sc: "older lib s c" by (rule below)
      show ?thesis
      proof (cases "x = c")
        case True
        with sc show ?thesis by simp
      next
        case False
        with that snoc have "x \<in> set cs0" by simp
        with Cons.prems(2) snoc have "older lib c x"
          by (simp add: descending_cursors_def sorted_wrt_append)
        with sc show ?thesis by (rule older_trans)
      qed
    qed
    have inv1: "requested st' @ [end_time st'] = None # map Some (cs @ [s])"
      using req' cursor s(1) Cons.prems(1) by simp
    have inv2: "descending_cursors lib (cs @ [s])"
      using Cons.prems(2) s(2) older_all by (simp add: descending_cursors_def sorted_wrt_append)
    from Cons.IH [OF inv1 inv2] Continue show ?thesis by simp
  qed
qed

text \<open>
  C5. An iteration that does not stop has got a page, and it sets \<open>end_time\<close> to the
  \<open>create_time\<close> of the last topic of that page as \<open>get_topics\<close> returned it, with or
  without a start time. Hence, when every page ends in a topic whose timestamp parses
  and is older than the cursor the page was requested with, the cursors of a run, after
  the unset cursor of the first request, move strictly backward in time.
\<close>

theorem cursor_advances_backward:
  "(batch_step lib net batch_size start_datetime batch st = Continue st' \<longrightarrow>
      (\<exists>topics. fst (get_topics (net batch) batch_size (end_time st) 5) = Some topics
         \<and> end_time st' = create_time (last topics)))
   \<and> (batch_size \<noteq> 0
        \<and> (\<forall>b et page. fst (get_topics (net b) batch_size et 5) = Some page \<longrightarrow>
             (\<exists>s. create_time (last page) = Some s \<and> timestamp_datetime lib s \<noteq> None
                \<and> (\<forall>c. et = Some c \<and> timestamp_datetime lib c \<noteq> None \<longrightarrow> older lib s c)))
        \<longrightarrow>
       (\<exists>st cs. run_batches lib net total_count batch_size start_time = Inr st
          \<and> (requested st = [] \<or> requested st = None # map Some cs)
          \<and> descending_cursors lib cs))"
proof (intro conjI impI)
  assume "batch_step lib net batch_size start_datetime batch st = Continue st'"
  from batch_step_continue [OF this]
  show "\<exists>topics. fst (get_topics (net batch) batch_size (end_time st) 5) = Some topics
      \<and> end_time st' = create_time (last topics)"
    by blast
next
  assume a: "batch_size \<noteq> 0
      \<and> (\<forall>b et page. fst (get_topics (net b) batch_size et 5) = Some page \<longrightarrow>
           (\<exists>s. create_time (last page) = Some s \<and> timestamp_datetime lib s \<noteq> None
              \<and> (\<forall>c. et = Some c \<and> timestamp_datetime lib c \<noteq> None \<longrightarrow> older lib s c)))"
  let ?final = "batches_loop lib net batch_size (parse_start_time lib start_time)
      [0 ..< nat (total_count div batch_size)] initial_state"
  from a have pages: "\<forall>b et page. fst (get_topics (net b) batch_size et 5) = Some page \<longrightarrow>
      (\<exists>s. create_time (last page) = Some s \<and> timestamp_datetime lib s \<noteq> None
        \<and> (\<forall>c. et = Some c \<and> timestamp_datetime lib c \<noteq> None \<longrightarrow> older lib s c))"
    by (rule conjunct2)
  have start: "requested initial_state @ [end_time initial_state] = None # map Some []"
    by (simp add: initial_state_def)
  have empty: "descending_cursors lib []"
    by (simp add: descending_cursors_def)
  have "\<exists>cs. (requested ?final = [] \<or> requested ?final = None # map Some cs)
      \<and> descending_cursors lib cs"
    using pages start empty by (rule batches_loop_cursors)
  then obtain cs where "(requested ?final = [] \<or> requested ?final = None # map Some cs)
      \<and> descending_cursors lib cs"
    by blast
  moreover from a have "run_batches lib net total_count batch_size start_time = Inr ?final"
    by (simp add: run_batches_def)
  ultimately show "\<exists>st cs. run_batches lib net total_count batch_size start_time = Inr st
      \<and> (requested st = [] \<or> requested st = None # map Some cs)
      \<and> descending_cursors lib cs"
    by blast
qed

text \<open>A page that \<open>get_topics\<close> returns is the page of one of the attempts.\<close>

lemma get_topics_loop_some:
  "fst (get_topics_loop requests_get ps m r) = Some ts \<Longrightarrow>
   \<exists>i. page_of (requests_get ps i) = Some ts"
proof (induction "nat (m + 1 - r)" arbitrary: r)
  case 0
  then show ?case by (subst (asm) get_topics_loop_unfold) simp
next
  case (Suc k)
  show ?case
  proof (cases "page_of (requests_get ps (nat r))")
    case None
    show ?thesis
    proof (cases "r < m")
      case True
      with None Suc.prems have "fst (get_topics_loop requests_get ps m (r + 1)) = Some ts"
        by (subst (asm) get_topics_loop_unfold) simp
      moreover have "k = nat (m + 1 - (r + 1))" using Suc.hyps(2) by linarith
      ultimately show ?thesis by (rule Suc.hyps(1) [rotated])
    next
      case False
      with None Suc.prems show ?thesis
        by (subst (asm) get_topics_loop_unfold) (simp split: if_splits)
    qed
  next
    case (Some p)
    with Suc.prems have "p = ts"
      by (subst (asm) get_topics_loop_unfold) (simp split: if_splits)
    with Some show ?thesis by blast
  qed
qed

lemma get_topics_archive:
  assumes "fst (get_topics (archive lib db b) cnt et m) = Some page"
  shows "page = take (nat cnt)
      (filter (\<lambda>t. case snd (request_params cnt et) of
                      None \<Rightarrow> True
                    | Some c \<Rightarrow> older lib (create_time_raw t) c) db)"
proof -
  from assms obtain i where "page_of (archive lib db b (request_params cnt et) i) = Some page"
    unfolding get_topics_def using get_topics_loop_some by blast
  then show ?thesis
    by (simp add: archive_def ok_page_def request_params_def split: if_splits)
qed

text \<open>
  The archive of the posts of 2 January 2024 and 31 December 2023, asked for one topic
  at a time with a budget of three: the first iteration sets the cursor to the first
  post's timestamp, and the run requests with no cursor, then with the first post's
  timestamp, then with the second's, which is older.
\<close>

theorem cursor_advances_backward_witness:
  "batch_step canonical_lib (archive canonical_lib [new_post, old_post]) 1 None 0 initial_state
     = Continue \<lparr>all_topics = [new_post], end_time = Some ''2024-01-02T03:04:05.678+0800'',
                 consecutive_small_batches = 0, requested = [None], parse_errors = []\<rparr>
   \<and> (\<exists>topics. fst (get_topics (archive canonical_lib [new_post, old_post] 0) 1
          (end_time initial_state) 5) = Some topics
        \<and> Some ''2024-01-02T03:04:05.678+0800'' = create_time (last topics))
   \<and> (1::int) \<noteq> 0
   \<and> (\<exists>st cs. run_batches canonical_lib (archive canonical_lib [new_post, old_post]) 3 1 None
          = Inr st
        \<and> (requested st = [] \<or> requested st = None # map Some cs)
        \<and> descending_cursors canonical_lib cs)
   \<and> map_sum id requested
        (run_batches canonical_lib (archive canonical_lib [new_post, old_post]) 3 1 None)
       = Inr [None, Some ''2024-01-02T03:04:05.678+0800'', Some ''2023-12-31T23:59:59.000+0800'']
   \<and> descending_cursors canonical_lib
        [''2024-01-02T03:04:05.678+0800'', ''2023-12-31T23:59:59.000+0800'']"
proof -
  let ?net = "archive canonical_lib [new_post, old_post]"
  let ?st1 = "\<lparr>all_topics = [new_post], end_time = Some ''2024-01-02T03:04:05.678+0800'',
      consecutive_small_batches = 0, requested = [None], parse_errors = []\<rparr>"
  note contract = cursor_advances_backward [of canonical_lib ?net 1 None 0 initial_state ?st1
      3 None]
  have step: "batch_step canonical_lib ?net 1 None 0 initial_state = Continue ?st1"
    by code_simp
  have run: "map_sum id requested (run_batches canonical_lib ?net 3 1 None)
      = Inr [None, Some ''2024-01-02T03:04:05.678+0800'', Some ''2023-12-31T23:59:59.000+0800'']"
    by code_simp
  have descending: "descending_cursors canonical_lib
      [''2024-01-02T03:04:05.678+0800'', ''2023-12-31T23:59:59.000+0800'']"
    by code_simp
  have empty: "timestamp_datetime canonical_lib [] = None" by code_simp
  have new: "create_time new_post = Some ''2024-01-02T03:04:05.678+0800''"
    "timestamp_datetime canonical_lib ''2024-01-02T03:04:05.678+0800'' \<noteq> None"
    by code_simp+
  have old: "create_time old_post = Some ''2023-12-31T23:59:59.000+0800''"
    "timestamp_datetime canonical_lib ''2023-12-31T23:59:59.000+0800'' \<noteq> None"
    by code_simp+
  have pages: "(1::int) \<noteq> 0 \<and> (\<forall>b et page. fst (get_topics (?net b) 1 et 5) = Some page \<longrightarrow>
      (\<exists>s. create_time (last page) = Some s \<and> timestamp_datetime canonical_lib s \<noteq> None
         \<and> (\<forall>c. et = Some c \<and> timestamp_datetime canonical_lib c \<noteq> None
              \<longrightarrow> older canonical_lib s c)))"
  proof (intro conjI allI impI)
    fix b et page
    assume got: "fst (get_topics (?net b) 1 et 5) = Some page"
    let ?keep = "\<lambda>t. case snd (request_params 1 et) of
        None \<Rightarrow> True | Some c \<Rightarrow> older canonical_lib (create_time_raw t) c"
    from got have page: "page = take (nat 1) (filter ?keep [new_post, old_post])"
      by (rule get_topics_archive)
    from got have "page \<noteq> []" by (rule get_topics_nonempty)
    then have "last page \<in> set page" by (rule last_in_set)
    with page have "last page \<in> set (filter ?keep [new_post, old_post])"
      using set_take_subset by fastforce
    then have "last page \<in> set [new_post, old_post] \<and> ?keep (last page)"
      by (simp only: set_filter mem_Collect_eq)
    then have which: "last page = new_post \<or> last page = old_post" and kept: "?keep (last page)"
      by simp_all
    have below: "older canonical_lib (create_time_raw (last page)) c"
      if "et = Some c \<and> timestamp_datetime canonical_lib c \<noteq> None" for c
    proof -
      from that empty have "c \<noteq> []" by auto
      with that have "snd (request_params 1 et) = Some c" by (simp add: request_params_def)
      with kept show ?thesis by simp
    qed
    from which show "\<exists>s. create_time (last page) = Some s
        \<and> timestamp_datetime canonical_lib s \<noteq> None
        \<and> (\<forall>c. et = Some c \<and> timestamp_datetime canonical_lib c \<noteq> None
             \<longrightarrow> older canonical_lib s c)"
    proof
      assume "last page = new_post"
      with new below show ?thesis by (auto simp: create_time_raw_def)
    next
      assume "last page = old_post"
      with old below show ?thesis by (auto simp: create_time_raw_def)
    qed
  qed simp
  from contract [THEN conjunct1] step
  have "\<exists>topics. fst (get_topics (?net 0) 1 (end_time initial_state) 5) = Some topics
      \<and> end_time ?st1 = create_time (last topics)"
    by (rule mp)
  then have first: "\<exists>topics. fst (get_topics (?net 0) 1 (end_time initial_state) 5) = Some topics
      \<and> Some ''2024-01-02T03:04:05.678+0800'' = create_time (last topics)"
    by simp
  from contract [THEN conjunct2] pages
  have cursors: "\<exists>st cs. run_batches canonical_lib ?net 3 1 None = Inr st
      \<and> (requested st = [] \<or> requested st = None # map Some cs)
      \<and> descending_cursors canonical_lib cs"
    by (rule mp)
  have nonzero: "(1::int) \<noteq> 0" by simp
  from step first nonzero cursors run descending show ?thesis by (intro conjI)
qed

subsection \<open>File names\<close>

text \<open>
  C9, as the code has it. For a timestamp that \<open>strptime\<close> accepts in one of the two
  formats, the file name is a function of the timestamp and the author name: the clock
  plays no part. For a timestamp that it rejects in both, \<open>get_filename_time\<close> falls
  back on the local time of the call, and the file name begins with that time.
\<close>

theorem filename_pure_when_parsed:
  "(strptime lib time_str fmt_frac \<noteq> None \<or> strptime lib time_str fmt_secs \<noteq> None \<longrightarrow>
      post_filename lib now time_str author_name = post_filename lib now' time_str author_name)
   \<and> (strptime lib time_str fmt_frac = None \<and> strptime lib time_str fmt_secs = None \<longrightarrow>
      post_filename lib now time_str author_name
        = now @ ''_'' @ sanitize_filename author_name @ ''.md'')"
  by (auto simp: post_filename_def get_filename_time_def split: option.splits)

text \<open>
  The post of 2 January 2024 by an author called \<open>a/b\<close> gets the same name at two
  different times of the clock; a timestamp with a space for the \<open>T\<close> gets the time of
  the clock.
\<close>

theorem filename_pure_when_parsed_witness:
  "strptime canonical_lib ''2024-01-02T03:04:05.678+0800'' fmt_frac \<noteq> None
   \<and> post_filename canonical_lib ''2024-03-01_10-00-00'' ''2024-01-02T03:04:05.678+0800'' ''a/b''
       = post_filename canonical_lib ''2024-03-01_10-00-01'' ''2024-01-02T03:04:05.678+0800'' ''a/b''
   \<and> post_filename canonical_lib ''2024-03-01_10-00-00'' ''2024-01-02T03:04:05.678+0800'' ''a/b''
       = ''2024-01-02_03-04-05_a_b.md''
   \<and> strptime canonical_lib ''2023-12-31 23:59:59'' fmt_frac = None
   \<and> strptime canonical_lib ''2023-12-31 23:59:59'' fmt_secs = None
   \<and> post_filename canonical_lib ''2024-03-01_10-00-00'' ''2023-12-31 23:59:59'' ''a/b''
       = ''2024-03-01_10-00-00'' @ ''_'' @ sanitize_filename ''a/b'' @ ''.md''"
proof -
  have parsed: "strptime canonical_lib ''2024-01-02T03:04:05.678+0800'' fmt_frac \<noteq> None"
    by code_simp
  have name: "post_filename canonical_lib ''2024-03-01_10-00-00''
      ''2024-01-02T03:04:05.678+0800'' ''a/b'' = ''2024-01-02_03-04-05_a_b.md''"
    by code_simp
  from filename_pure_when_parsed [of canonical_lib "''2024-01-02T03:04:05.678+0800''"
      "''2024-03-01_10-00-00''" "''a/b''" "''2024-03-01_10-00-01''"] parsed
  have "post_filename canonical_lib ''2024-03-01_10-00-00'' ''2024-01-02T03:04:05.678+0800'' ''a/b''
      = post_filename canonical_lib ''2024-03-01_10-00-01'' ''2024-01-02T03:04:05.678+0800'' ''a/b''"
    by blast
  note same = this
  have odd: "strptime canonical_lib ''2023-12-31 23:59:59'' fmt_frac = None"
    "strptime canonical_lib ''2023-12-31 23:59:59'' fmt_secs = None"
    by code_simp+
  with filename_pure_when_parsed [of canonical_lib "''2023-12-31 23:59:59''"
      "''2024-03-01_10-00-00''" "''a/b''" "''2024-03-01_10-00-00''"]
  have "post_filename canonical_lib ''2024-03-01_10-00-00'' ''2023-12-31 23:59:59'' ''a/b''
      = ''2024-03-01_10-00-00'' @ ''_'' @ sanitize_filename ''a/b'' @ ''.md''"
    by blast
  with parsed same name odd show ?thesis by (intro conjI)
qed

text \<open>
  C9 as stated fails for a timestamp that does not parse: the same timestamp and author
  give two different file names one second apart.
\<close>

theorem filename_pure_counterexample:
  "post_filename canonical_lib ''2024-03-01_10-00-00'' ''2023-12-31 23:59:59'' ''carol''
     = ''2024-03-01_10-00-00_carol.md''
   \<and> post_filename canonical_lib ''2024-03-01_10-00-01'' ''2023-12-31 23:59:59'' ''carol''
     = ''2024-03-01_10-00-01_carol.md''
   \<and> post_filename canonical_lib ''2024-03-01_10-00-00'' ''2023-12-31 23:59:59'' ''carol''
     \<noteq> post_filename canonical_lib ''2024-03-01_10-00-01'' ''2023-12-31 23:59:59'' ''carol''"
  by code_simp

subsection \<open>The Index Merger\<close>

text \<open>The set of names and the list of entries read from the index go together.\<close>

lemma read_index_names:
  assumes "names = entry_filename ` set es"
  shows "fst (read_index table_started lines (names, es))
     = entry_filename ` set (snd (read_index table_started lines (names, es)))"
  using assms
proof (induction lines arbitrary: table_started names es)
  case Nil
  then show ?case by simp
next
  case (Cons line rest)
  show ?case
  proof (cases "parse_row line")
    case None
    with Cons show ?thesis by simp
  next
    case (Some e)
    have "insert (entry_filename e) names = entry_filename ` set (es @ [e])"
      using Cons.prems by auto
    from Cons.IH [OF this] Cons.IH [OF Cons.prems] Some show ?thesis by simp
  qed
qed

lemma read_existing_names:
  assumes "read_existing dir = (existing_entries, existing_entries_data)"
  shows "existing_entries = entry_filename ` set existing_entries_data"
proof (cases "index_md dir")
  case None
  with assms show ?thesis by (auto simp: read_existing_def)
next
  case (Some content)
  have "fst (read_index False (readlines content) ({}, []))
      = entry_filename ` set (snd (read_index False (readlines content) ({}, [])))"
    by (rule read_index_names) simp
  with Some assms show ?thesis by (simp add: read_existing_def)
qed

text \<open>One round of the loop over the topics: the topic is passed over, or its file is made.\<close>

lemma index_topics_skip:
  assumes "not_talk (topic_talk t)
      \<or> post_filename lib (clock idx 0) (create_time_raw t) (author_name_of (topic_talk t))
          \<in> existing_entries"
  shows "index_topics lib clock io existing_entries idx (t # rest) (new_entries, fs)
     = index_topics lib clock io existing_entries (Suc idx) rest (new_entries, fs)"
  using assms by (auto simp: Let_def)

lemma index_topics_made:
  assumes "\<not> not_talk (topic_talk t)"
    and "post_filename lib (clock idx 0) (create_time_raw t) (author_name_of (topic_talk t))
          \<notin> existing_entries"
    and "create_markdown_for_topic lib (clock idx 1) (io idx) fs t = (file_path, fs')"
  shows "index_topics lib clock io existing_entries idx (t # rest) (new_entries, fs)
     = index_topics lib clock io existing_entries (Suc idx) rest
         (if file_path = None then new_entries else new_entries @ [topic_entry lib clock idx t],
          fs')"
  using assms by (cases file_path) (simp_all add: Let_def topic_entry_def)

text \<open>A topic whose file name is in the index already adds no entry.\<close>

lemma index_topics_not_readded:
  assumes "e \<in> set (fst (index_topics lib clock io existing_entries idx topics (new_entries, fs)))"
  shows "e \<in> set new_entries \<or> entry_filename e \<notin> existing_entries"
  using assms
proof (induction topics arbitrary: idx new_entries fs)
  case Nil
  then show ?case by simp
next
  case (Cons t rest)
  let ?filename = "post_filename lib (clock idx 0) (create_time_raw t)
      (author_name_of (topic_talk t))"
  show ?case
  proof (cases "not_talk (topic_talk t) \<or> ?filename \<in> existing_entries")
    case True
    then have "index_topics lib clock io existing_entries idx (t # rest) (new_entries, fs)
        = index_topics lib clock io existing_entries (Suc idx) rest (new_entries, fs)"
      by (rule index_topics_skip)
    with Cons.prems
    have "e \<in> set (fst (index_topics lib clock io existing_entries (Suc idx) rest (new_entries, fs)))"
      by simp
    then show ?thesis by (rule Cons.IH)
  next
    case False
    then have talk: "\<not> not_talk (topic_talk t)" and fresh: "?filename \<notin> existing_entries"
      by simp_all
    obtain file_path fs' where made:
      "create_markdown_for_topic lib (clock idx 1) (io idx) fs t = (file_path, fs')"
      by (cases "create_markdown_for_topic lib (clock idx 1) (io idx) fs t")
    let ?new = "if file_path = None then new_entries
        else new_entries @ [topic_entry lib clock idx t]"
    from index_topics_made [where clock = clock and io = io and idx = idx, OF talk fresh made] Cons.prems
    have "e \<in> set (fst (index_topics lib clock io existing_entries (Suc idx) rest (?new, fs')))"
      by simp
    then have "e \<in> set ?new \<or> entry_filename e \<notin> existing_entries"
      by (rule Cons.IH)
    with fresh show ?thesis
      by (auto simp: entry_filename_def topic_entry_def split: if_splits)
  qed
qed

text \<open>
  When every topic has a talk, a file name that is not in the index, and a file that
  gets written, every topic adds its entry, in order.
\<close>

lemma index_topics_all:
  assumes "\<forall>i<length topics. \<not> not_talk (topic_talk (topics ! i))
      \<and> entry_filename (topic_entry lib clock (idx + i) (topics ! i)) \<notin> existing_entries
      \<and> io (idx + i) = Rendered"
  shows "fst (index_topics lib clock io existing_entries idx topics (new_entries, fs))
     = new_entries @ map (\<lambda>(i, t). topic_entry lib clock i t) (enumerate idx topics)"
  using assms
proof (induction topics arbitrary: idx new_entries fs)
  case Nil
  show ?case by simp
next
  case (Cons t rest)
  from Cons.prems have "\<not> not_talk (topic_talk ((t # rest) ! 0))
      \<and> entry_filename (topic_entry lib clock (idx + 0) ((t # rest) ! 0)) \<notin> existing_entries
      \<and> io (idx + 0) = Rendered"
    by blast
  then have talk: "\<not> not_talk (topic_talk t)"
    and fresh: "post_filename lib (clock idx 0) (create_time_raw t)
      (author_name_of (topic_talk t)) \<notin> existing_entries"
    and written: "io idx = Rendered"
    by (simp_all add: topic_entry_def entry_filename_def)
  have tail: "\<forall>i<length rest. \<not> not_talk (topic_talk (rest ! i))
      \<and> entry_filename (topic_entry lib clock (Suc idx + i) (rest ! i)) \<notin> existing_entries
      \<and> io (Suc idx + i) = Rendered"
  proof (intro allI impI)
    fix i assume "i < length rest"
    then have "Suc i < length (t # rest)" by simp
    with Cons.prems have "\<not> not_talk (topic_talk ((t # rest) ! Suc i))
      \<and> entry_filename (topic_entry lib clock (idx + Suc i) ((t # rest) ! Suc i))
          \<notin> existing_entries
      \<and> io (idx + Suc i) = Rendered"
      by blast
    then show "\<not> not_talk (topic_talk (rest ! i))
      \<and> entry_filename (topic_entry lib clock (Suc idx + i) (rest ! i)) \<notin> existing_entries
      \<and> io (Suc idx + i) = Rendered"
      by simp
  qed
  obtain file_path fs' where made:
    "create_markdown_for_topic lib (clock idx 1) (io idx) fs t = (file_path, fs')"
    by (cases "create_markdown_for_topic lib (clock idx 1) (io idx) fs t")
  have some: "file_path \<noteq> None"
    using made talk written
    by (auto simp: create_markdown_for_topic_def Let_def split: if_splits)
  from index_topics_made [where clock = clock and io = io and idx = idx, OF talk fresh made] some
  have "fst (index_topics lib clock io existing_entries idx (t # rest) (new_entries, fs))
      = fst (index_topics lib clock io existing_entries (Suc idx) rest
          (new_entries @ [topic_entry lib clock idx t], fs'))"
    by simp
  also have "\<dots> = (new_entries @ [topic_entry lib clock idx t])
      @ map (\<lambda>(i, t). topic_entry lib clock i t) (enumerate (Suc idx) rest)"
    using tail by (rule Cons.IH)
  finally show ?case by simp
qed

text \<open>The sort is a stable sort into descending order of the first component.\<close>

lemma mset_sort_reverse: "mset (sort_reverse entries) = mset entries"
  by (simp add: sort_reverse_def)

lemma sorted_sort_reverse: "sorted (rev (map fst (sort_reverse entries)))"
  by (simp add: sort_reverse_def rev_map)

lemma sort_reverse_stable:
  "filter (\<lambda>e. fst e = k) (sort_reverse entries) = filter (\<lambda>e. fst e = k) entries"
proof -
  have "filter (\<lambda>e. fst e = k) (sort_reverse entries)
      = rev (filter (\<lambda>e. fst e = k) (sort_key fst (rev entries)))"
    by (simp add: sort_reverse_def rev_filter)
  also have "\<dots> = rev (filter (\<lambda>e. fst e = k) (rev entries))"
    by (simp only: sort_key_stable)
  also have "\<dots> = filter (\<lambda>e. fst e = k) entries"
    by (simp add: rev_filter)
  finally show ?thesis .
qed

text \<open>What \<open>create_markdown\<close> leaves, by whether it found a new entry.\<close>

lemma create_markdown_result:
  assumes "topics \<noteq> []"
    and "read_existing dir = (existing_entries, existing_entries_data)"
    and "index_topics lib clock io existing_entries 0 topics ([], files dir) = (new_entries, fs)"
  shows "create_markdown lib clock io group_id dir topics =
     (if new_entries = [] then (dir\<lparr>files := fs\<rparr>, [])
      else (\<lparr>index_md = Some (index_text group_id
                (sort_reverse (existing_entries_data @ new_entries))),
             files = fs\<rparr>, new_entries))"
  using assms by (simp add: create_markdown_def Let_def)

text \<open>
  C2. Let \<open>existing_entries_data\<close> be the rows parsed from the index. A topic whose
  file name is among them adds no entry. When new entries were made, the index is
  rewritten with the existing and the new entries together: each as often as it occurs
  among them, none dropped, in descending order of the creation-time string, entries
  with equal strings in their former order. When the topics all have a talk, a file
  name that is not in the index, and a file that gets written, the new entries are
  those of all the topics. When no new entry was made, the index is left as it is.
\<close>

theorem index_merge:
  assumes "read_existing dir = (existing_entries, existing_entries_data)"
    and "create_markdown lib clock io group_id dir topics = (dir', new_entries)"
  shows "(\<forall>e\<in>set new_entries. entry_filename e \<notin> entry_filename ` set existing_entries_data)
    \<and> (new_entries \<noteq> [] \<longrightarrow>
         (\<exists>written. index_md dir' = Some (index_text group_id written)
            \<and> mset written = mset existing_entries_data + mset new_entries
            \<and> sorted (rev (map fst written))
            \<and> (\<forall>k. filter (\<lambda>e. fst e = k) written
                  = filter (\<lambda>e. fst e = k) (existing_entries_data @ new_entries))))
    \<and> (new_entries = [] \<longrightarrow> index_md dir' = index_md dir)
    \<and> ((\<forall>i<length topics. \<not> not_talk (topic_talk (topics ! i))
           \<and> entry_filename (topic_entry lib clock i (topics ! i))
               \<notin> entry_filename ` set existing_entries_data
           \<and> io i = Rendered) \<longrightarrow>
         new_entries = map (\<lambda>(i, t). topic_entry lib clock i t) (enumerate 0 topics))"
proof (cases "topics = []")
  case True
  with assms(2) have "dir' = dir" "new_entries = []"
    by (simp_all add: create_markdown_def)
  with True show ?thesis by simp
next
  case False
  have names: "existing_entries = entry_filename ` set existing_entries_data"
    using assms(1) by (rule read_existing_names)
  obtain found fs
    where loop: "index_topics lib clock io existing_entries 0 topics ([], files dir) = (found, fs)"
    by (cases "index_topics lib clock io existing_entries 0 topics ([], files dir)")
  note result = create_markdown_result [OF False assms(1) loop, of group_id]
  from result assms(2) have new: "new_entries = found"
    by (auto split: if_splits)
  have not_readded:
    "\<forall>e\<in>set new_entries. entry_filename e \<notin> entry_filename ` set existing_entries_data"
  proof
    fix e assume "e \<in> set new_entries"
    with new loop
    have "e \<in> set (fst (index_topics lib clock io existing_entries 0 topics ([], files dir)))"
      by simp
    then have "e \<in> set [] \<or> entry_filename e \<notin> existing_entries"
      by (rule index_topics_not_readded)
    with names show "entry_filename e \<notin> entry_filename ` set existing_entries_data"
      by simp
  qed
  have written: "\<exists>written. index_md dir' = Some (index_text group_id written)
      \<and> mset written = mset existing_entries_data + mset new_entries
      \<and> sorted (rev (map fst written))
      \<and> (\<forall>k. filter (\<lambda>e. fst e = k) written
            = filter (\<lambda>e. fst e = k) (existing_entries_data @ new_entries))"
    if "new_entries \<noteq> []"
  proof -
    let ?written = "sort_reverse (existing_entries_data @ new_entries)"
    from result assms(2) that new
    have "index_md dir' = Some (index_text group_id ?written)" by auto
    moreover have "mset ?written = mset existing_entries_data + mset new_entries"
      by (simp add: mset_sort_reverse)
    moreover have "sorted (rev (map fst ?written))" by (rule sorted_sort_reverse)
    moreover have "\<forall>k. filter (\<lambda>e. fst e = k) ?written
        = filter (\<lambda>e. fst e = k) (existing_entries_data @ new_entries)"
      by (simp add: sort_reverse_stable)
    ultimately show ?thesis by blast
  qed
  have untouched: "index_md dir' = index_md dir" if "new_entries = []"
    using result assms(2) that new by auto
  have all: "new_entries = map (\<lambda>(i, t). topic_entry lib clock i t) (enumerate 0 topics)"
    if "\<forall>i<length topics. \<not> not_talk (topic_talk (topics ! i))
           \<and> entry_filename (topic_entry lib clock i (topics ! i))
               \<notin> entry_filename ` set existing_entries_data
           \<and> io i = Rendered"
  proof -
    from that names
    have "\<forall>i<length topics. \<not> not_talk (topic_talk (topics ! i))
        \<and> entry_filename (topic_entry lib clock (0 + i) (topics ! i)) \<notin> existing_entries
        \<and> io (0 + i) = Rendered"
      by simp
    then have "fst (index_topics lib clock io existing_entries 0 topics ([], files dir))
        = [] @ map (\<lambda>(i, t). topic_entry lib clock i t) (enumerate 0 topics)"
      by (rule index_topics_all)
    with loop new show ?thesis by simp
  qed
  from not_readded written untouched all show ?thesis by blast
qed

text \<open>
  A directory whose index holds the post of 31 December 2023. Given that post and the
  one of 2 January 2024, the Index Merger adds the newer one only and writes both rows,
  the newer first; given the newer one alone, its entry is the new entry; given the
  older one alone, it adds nothing and leaves the index as it is.
\<close>

theorem index_merge_witness:
  "read_existing \<lparr>index_md = Some (index_text ''10086''
         [(''2023-12-31 23:59:59'', ''bob'', ''100'', ''2023-12-31_23-59-59_bob.md'')]),
       files = {''2023-12-31_23-59-59_bob.md''}\<rparr>
     = ({''2023-12-31_23-59-59_bob.md''},
        [(''2023-12-31 23:59:59'', ''bob'', ''100'', ''2023-12-31_23-59-59_bob.md'')])
   \<and> create_markdown canonical_lib (\<lambda>i k. ''2024-03-01_10-00-00'') (\<lambda>i. Rendered) ''10086''
       \<lparr>index_md = Some (index_text ''10086''
           [(''2023-12-31 23:59:59'', ''bob'', ''100'', ''2023-12-31_23-59-59_bob.md'')]),
         files = {''2023-12-31_23-59-59_bob.md''}\<rparr>
       [new_post, old_post]
     = (\<lparr>index_md = Some (index_text ''10086''
            [(''2024-01-02 03:04:05'', ''alice'', ''101'', ''2024-01-02_03-04-05_alice.md''),
             (''2023-12-31 23:59:59'', ''bob'', ''100'', ''2023-12-31_23-59-59_bob.md'')]),
          files = {''2024-01-02_03-04-05_alice.md'', ''2023-12-31_23-59-59_bob.md''}\<rparr>,
        [(''2024-01-02 03:04:05'', ''alice'', ''101'', ''2024-01-02_03-04-05_alice.md'')])
   \<and> ''2024-01-02_03-04-05_alice.md'' \<noteq> ''2023-12-31_23-59-59_bob.md''
   \<and> (\<exists>written.
         index_text ''10086''
            [(''2024-01-02 03:04:05'', ''alice'', ''101'', ''2024-01-02_03-04-05_alice.md''),
             (''2023-12-31 23:59:59'', ''bob'', ''100'', ''2023-12-31_23-59-59_bob.md'')]
           = index_text ''10086'' written
         \<and> mset written
           = mset [(''2023-12-31 23:59:59'', ''bob'', ''100'', ''2023-12-31_23-59-59_bob.md'')]
             + mset [(''2024-01-02 03:04:05'', ''alice'', ''101'',
                      ''2024-01-02_03-04-05_alice.md'')]
         \<and> sorted (rev (map fst written)))
   \<and> snd (create_markdown canonical_lib (\<lambda>i k. ''2024-03-01_10-00-00'') (\<lambda>i. Rendered) ''10086''
       \<lparr>index_md = Some (index_text ''10086''
           [(''2023-12-31 23:59:59'', ''bob'', ''100'', ''2023-12-31_23-59-59_bob.md'')]),
         files = {''2023-12-31_23-59-59_bob.md''}\<rparr>
       [new_post])
     = [topic_entry canonical_lib (\<lambda>i k. ''2024-03-01_10-00-00'') 0 new_post]
   \<and> snd (create_markdown canonical_lib (\<lambda>i k. ''2024-03-01_10-00-00'') (\<lambda>i. FailsAtOpen) ''10086''
       \<lparr>index_md = Some (index_text ''10086''
           [(''2023-12-31 23:59:59'', ''bob'', ''100'', ''2023-12-31_23-59-59_bob.md'')]),
         files = {''2023-12-31_23-59-59_bob.md''}\<rparr>
       [old_post]) = []
   \<and> index_md (fst (create_markdown canonical_lib (\<lambda>i k. ''2024-03-01_10-00-00'')
       (\<lambda>i. FailsAtOpen) ''10086''
       \<lparr>index_md = Some (index_text ''10086''
           [(''2023-12-31 23:59:59'', ''bob'', ''100'', ''2023-12-31_23-59-59_bob.md'')]),
         files = {''2023-12-31_23-59-59_bob.md''}\<rparr>
       [old_post]))
     = Some (index_text ''10086''
           [(''2023-12-31 23:59:59'', ''bob'', ''100'', ''2023-12-31_23-59-59_bob.md'')])"
proof -
  let ?alice = "(''2024-01-02 03:04:05'', ''alice'', ''101'', ''2024-01-02_03-04-05_alice.md'')"
  let ?bob = "(''2023-12-31 23:59:59'', ''bob'', ''100'', ''2023-12-31_23-59-59_bob.md'')"
  let ?clock = "\<lambda>(i::nat) (k::nat). ''2024-03-01_10-00-00''"
  let ?dir0 = "\<lparr>index_md = Some (index_text ''10086'' [?bob]),
      files = {''2023-12-31_23-59-59_bob.md''}\<rparr>"
  let ?dir1 = "\<lparr>index_md = Some (index_text ''10086'' [?alice, ?bob]),
      files = {''2024-01-02_03-04-05_alice.md'', ''2023-12-31_23-59-59_bob.md''}\<rparr>"
  let ?alone = "create_markdown canonical_lib ?clock (\<lambda>i. Rendered) ''10086'' ?dir0 [new_post]"
  let ?again = "create_markdown canonical_lib ?clock (\<lambda>i. FailsAtOpen) ''10086'' ?dir0 [old_post]"
  have existing: "read_existing ?dir0 = ({''2023-12-31_23-59-59_bob.md''}, [?bob])"
    by code_simp
  have both: "create_markdown canonical_lib ?clock (\<lambda>i. Rendered) ''10086'' ?dir0
      [new_post, old_post] = (?dir1, [?alice])"
    by code_simp
  have fresh: "''2024-01-02_03-04-05_alice.md'' \<noteq> ''2023-12-31_23-59-59_bob.md''"
    by simp
  note merged = index_merge [OF existing both]
  have "[?alice] \<noteq> []" by simp
  with merged [THEN conjunct2, THEN conjunct1]
  have "\<exists>written. index_md ?dir1 = Some (index_text ''10086'' written)
      \<and> mset written = mset [?bob] + mset [?alice] \<and> sorted (rev (map fst written))
      \<and> (\<forall>k. filter (\<lambda>e. fst e = k) written = filter (\<lambda>e. fst e = k) ([?bob] @ [?alice]))"
    by (rule mp)
  then obtain written where "index_md ?dir1 = Some (index_text ''10086'' written)"
    and contents: "mset written = mset [?bob] + mset [?alice]"
    and order: "sorted (rev (map fst written))"
    by blast
  then have "index_text ''10086'' [?alice, ?bob] = index_text ''10086'' written"
    by (simp only: posts_dir.simps option.inject)
  with contents order
  have written: "\<exists>written. index_text ''10086'' [?alice, ?bob] = index_text ''10086'' written
      \<and> mset written = mset [?bob] + mset [?alice] \<and> sorted (rev (map fst written))"
    by blast
  have alone: "?alone = (fst ?alone, snd ?alone)"
    by simp
  have "\<not> not_talk (topic_talk new_post)"
    and "entry_filename (topic_entry canonical_lib ?clock 0 new_post)
      \<notin> entry_filename ` set [?bob]"
    by code_simp+
  then have "\<forall>i<length [new_post]. \<not> not_talk (topic_talk ([new_post] ! i))
      \<and> entry_filename (topic_entry canonical_lib ?clock i ([new_post] ! i))
          \<notin> entry_filename ` set [?bob]
      \<and> (\<lambda>i. Rendered) i = Rendered"
    by simp
  with index_merge [OF existing alone, THEN conjunct2, THEN conjunct2,
      THEN conjunct2]
  have "snd ?alone = map (\<lambda>(i, t). topic_entry canonical_lib ?clock i t)
      (enumerate 0 [new_post])"
    by (rule mp)
  then have all_new: "snd ?alone = [topic_entry canonical_lib ?clock 0 new_post]"
    by (simp add: enumerate_simps)
  have again: "?again = (fst ?again, snd ?again)"
    by simp
  have none: "snd ?again = []"
    by code_simp
  with index_merge [OF existing again, THEN conjunct2, THEN conjunct2,
      THEN conjunct1]
  have "index_md (fst ?again) = index_md ?dir0"
    by (rule mp)
  then have untouched: "index_md (fst ?again) = Some (index_text ''10086'' [?bob])"
    by (simp only: posts_dir.simps)
  from existing both fresh written all_new none untouched show ?thesis
    by (intro conjI)
qed

subsection \<open>Reading back the index that was written\<close>

text \<open>A text cut after a line end is read as the lines of its two parts.\<close>

lemma readlines_from_append:
  "readlines_from cur (xs @ CHR 0x0A # ys)
     = readlines_from cur (xs @ [CHR 0x0A]) @ readlines_from [] ys"
proof (induction xs arbitrary: cur)
  case Nil
  show ?case by simp
next
  case (Cons c cs)
  show ?case
  proof (cases "c = CHR 0x0D")
    case True
    show ?thesis
    proof (cases cs)
      case Nil
      with True show ?thesis by simp
    next
      case (Cons d ds)
      show ?thesis
      proof (cases "d = CHR 0x0A")
        case True
        with \<open>c = CHR 0x0D\<close> Cons Cons.IH [of "[]"] show ?thesis
          using readlines_from.simps(2) [of "[]" "CHR 0x0A" "ds @ CHR 0x0A # ys"]
            readlines_from.simps(2) [of "[]" "CHR 0x0A" "ds @ [CHR 0x0A]"]
          by simp
      next
        case False
        with \<open>c = CHR 0x0D\<close> Cons Cons.IH [of "[]"] show ?thesis by simp
      qed
    qed
  next
    case False
    with Cons.IH show ?thesis by simp
  qed
qed

lemma readlines_append:
  "readlines (xs @ CHR 0x0A # ys) = readlines (xs @ [CHR 0x0A]) @ readlines ys"
  unfolding readlines_def by (rule readlines_from_append)

lemma readlines_from_one_line:
  assumes "CHR 0x0A \<notin> set xs" and "CHR 0x0D \<notin> set xs"
  shows "readlines_from cur (xs @ [CHR 0x0A]) = [cur @ xs @ [CHR 0x0A]]"
  using assms by (induction xs arbitrary: cur) auto

lemma readlines_nil: "readlines [] = []"
  by (simp add: readlines_def)

text \<open>A row ends with a line end, so the rows of an index are read one after another.\<close>

lemma index_row_ends: "\<exists>body. index_row e = body @ [CHR 0x0A]"
  by (cases e) (auto simp: index_row_def)

lemma readlines_rows:
  "readlines (concat (map index_row es)) = concat (map (\<lambda>e. readlines (index_row e)) es)"
proof (induction es)
  case Nil
  show ?case by (simp add: readlines_nil)
next
  case (Cons e es)
  obtain body where body: "index_row e = body @ [CHR 0x0A]"
    using index_row_ends by blast
  have "readlines (index_row e @ concat (map index_row es))
      = readlines (body @ CHR 0x0A # concat (map index_row es))"
    by (simp add: body)
  also have "\<dots> = readlines (body @ [CHR 0x0A]) @ readlines (concat (map index_row es))"
    by (rule readlines_append)
  finally show ?case by (simp add: body Cons.IH)
qed

text \<open>One round of the loop over the lines.\<close>

lemma read_index_step:
  "read_index table_started (line # rest) (names, es)
     = read_index (table_started \<or> sublist header_marker line) rest
         (case line_entry table_started line of
            None \<Rightarrow> (names, es)
          | Some e \<Rightarrow> (insert (entry_filename e) names, es @ [e]))"
proof (cases "sublist header_marker line")
  case True
  then show ?thesis by (simp add: line_entry_def)
next
  case False
  note no_header = this
  show ?thesis
  proof (cases "sublist separator_marker line")
    case True
    with no_header show ?thesis by (simp add: line_entry_def)
  next
    case False
    note no_separator = this
    show ?thesis
    proof (cases "table_started \<and> CHR ''|'' \<in> set line \<and> sublist ''.md'' line")
      case True
      with no_header no_separator show ?thesis
        by (cases "parse_row line") (simp_all add: line_entry_def)
    next
      case False
      with no_header no_separator show ?thesis
        by (auto simp: line_entry_def)
    qed
  qed
qed

lemma line_entry_not_started: "line_entry False line = None"
  by (simp only: line_entry_def simp_thms if_False if_cancel)

lemma line_entry_no_bar: "CHR ''|'' \<notin> set line \<Longrightarrow> line_entry table_started line = None"
  by (simp add: line_entry_def)

text \<open>What the loop over the lines has collected does not change what it collects next.\<close>

lemma read_index_acc:
  "read_index table_started lines (names, es)
     = (names \<union> fst (read_index table_started lines ({}, [])),
        es @ snd (read_index table_started lines ({}, [])))"
proof (induction lines arbitrary: table_started names es)
  case Nil
  show ?case by simp
next
  case (Cons line rest)
  let ?started = "table_started \<or> sublist header_marker line"
  show ?case
  proof (cases "line_entry table_started line")
    case None
    then show ?thesis
      by (simp only: read_index_step option.case Cons.IH [of ?started names es])
  next
    case (Some e)
    have one: "read_index ?started rest ({entry_filename e}, [e])
        = ({entry_filename e} \<union> fst (read_index ?started rest ({}, [])),
           [e] @ snd (read_index ?started rest ({}, [])))"
      by (rule Cons.IH)
    have all: "read_index ?started rest (insert (entry_filename e) names, es @ [e])
        = (insert (entry_filename e) names \<union> fst (read_index ?started rest ({}, [])),
           (es @ [e]) @ snd (read_index ?started rest ({}, [])))"
      by (rule Cons.IH)
    have "read_index table_started (line # rest) (names, es)
        = read_index ?started rest (insert (entry_filename e) names, es @ [e])"
      by (simp only: read_index_step Some option.case)
    moreover have "read_index table_started (line # rest) ({}, [])
        = read_index ?started rest ({entry_filename e}, [e])"
      by (simp only: read_index_step Some option.case append_Nil)
    ultimately show ?thesis
      by (simp only: one all) auto
  qed
qed

lemma read_index_started_append:
  "read_index True (lines @ later) acc = read_index True later (read_index True lines acc)"
proof (induction lines arbitrary: acc)
  case Nil
  show ?case by simp
next
  case (Cons line rest)
  obtain names es where acc: "acc = (names, es)" by (cases acc)
  show ?case
    unfolding acc by (simp only: append_Cons read_index_step simp_thms Cons.IH)
qed

lemma read_index_rows:
  assumes "\<forall>e\<in>set es. reads_back e"
  shows "read_index True (concat (map (\<lambda>e. readlines (index_row e)) es)) ({}, [])
     = (entry_filename ` set es, es)"
  using assms
proof (induction es)
  case Nil
  show ?case by simp
next
  case (Cons e es)
  let ?rest = "concat (map (\<lambda>e. readlines (index_row e)) es)"
  from Cons.prems have row: "read_index True (readlines (index_row e)) ({}, [])
      = ({entry_filename e}, [e])"
    by (simp add: reads_back_def)
  from Cons.prems have rest: "read_index True ?rest ({}, []) = (entry_filename ` set es, es)"
    by (intro Cons.IH) simp
  have "read_index True (readlines (index_row e) @ ?rest) ({}, [])
      = read_index True ?rest ({entry_filename e}, [e])"
    by (simp only: read_index_started_append row)
  also have "\<dots> = ({entry_filename e} \<union> entry_filename ` set es, [e] @ es)"
    using read_index_acc [of True ?rest "{entry_filename e}" "[e]"] rest by simp
  finally show ?case by simp
qed

text \<open>The title and the two header rows give no entry and start the table.\<close>

lemma header_lines:
  "readlines index_header =
     [''| '' @ [CHR 0xE5, CHR 0x8F, CHR 0x91, CHR 0xE5, CHR 0xB8, CHR 0x83, CHR 0xE6, CHR 0x97,
               CHR 0xB6, CHR 0xE9, CHR 0x97, CHR 0xB4]
        @ '' | '' @ [CHR 0xE4, CHR 0xBD, CHR 0x9C, CHR 0xE8, CHR 0x80, CHR 0x85]
        @ '' | '' @ [CHR 0xE5, CHR 0xB8, CHR 0x96, CHR 0xE5, CHR 0xAD, CHR 0x90] @ ''ID | ''
        @ [CHR 0xE6, CHR 0x96, CHR 0x87, CHR 0xE4, CHR 0xBB, CHR 0xB6, CHR 0xE9, CHR 0x93,
           CHR 0xBE, CHR 0xE6, CHR 0x8E, CHR 0xA5] @ '' |'' @ [CHR 0x0A],
      ''|---------|------|--------|----------|'' @ [CHR 0x0A]]"
  by code_simp

lemma read_index_header:
  "read_index table_started (readlines index_header @ lines) acc = read_index True lines acc"
proof -
  obtain names es where acc: "acc = (names, es)" by (cases acc)
  let ?first = "hd (readlines index_header)"
  let ?second = "hd (tl (readlines index_header))"
  have first: "sublist header_marker ?first"
    by code_simp
  have second: "sublist separator_marker ?second"
    by code_simp
  have two: "readlines index_header = [?first, ?second]"
    by code_simp
  have "read_index table_started ([?first, ?second] @ lines) (names, es)
      = read_index True (?second # lines) (names, es)"
    using first by (simp only: append_Cons append_Nil read_index_step line_entry_def
        if_True simp_thms option.case)
  also have "\<dots> = read_index True lines (names, es)"
    using second by (simp only: read_index_step line_entry_def if_True if_cancel simp_thms
        option.case)
  finally show ?thesis unfolding acc by (simp only: two [symmetric])
qed

lemma read_index_before_header:
  "read_index False ([title, [CHR 0x0A]] @ lines) acc
     = read_index (sublist header_marker title \<or> sublist header_marker [CHR 0x0A]) lines acc"
proof -
  obtain names es where acc: "acc = (names, es)" by (cases acc)
  have blank: "line_entry started [CHR 0x0A] = None" for started
    by (rule line_entry_no_bar) simp
  have "read_index False (title # [CHR 0x0A] # lines) (names, es)
      = read_index (False \<or> sublist header_marker title) ([CHR 0x0A] # lines) (names, es)"
    by (subst read_index_step) (simp only: line_entry_not_started option.case)
  also have "\<dots> = read_index ((False \<or> sublist header_marker title)
      \<or> sublist header_marker [CHR 0x0A]) lines (names, es)"
    by (subst read_index_step) (simp only: blank option.case)
  finally show ?thesis unfolding acc by simp
qed

lemma readlines_title:
  assumes "CHR 0x0A \<notin> set group_id" and "CHR 0x0D \<notin> set group_id"
  shows "\<exists>title. readlines (index_title group_id) = [title, [CHR 0x0A]]"
proof -
  define head where "head = ''# '' @ [CHR 0xE7, CHR 0x9F, CHR 0xA5, CHR 0xE8, CHR 0xAF, CHR 0x86,
      CHR 0xE6, CHR 0x98, CHR 0x9F, CHR 0xE7, CHR 0x90, CHR 0x83, CHR 0xE5, CHR 0xB8, CHR 0x96,
      CHR 0xE5, CHR 0xAD, CHR 0x90, CHR 0xE7, CHR 0xB4, CHR 0xA2, CHR 0xE5, CHR 0xBC, CHR 0x95]
      @ '' - '' @ group_id"
  have clean: "CHR 0x0A \<notin> set head" "CHR 0x0D \<notin> set head"
    using assms by (simp_all add: head_def)
  have title: "index_title group_id = head @ CHR 0x0A # [CHR 0x0A]"
    by (simp add: index_title_def head_def)
  have "readlines (head @ CHR 0x0A # [CHR 0x0A])
      = readlines (head @ [CHR 0x0A]) @ readlines [CHR 0x0A]"
    by (rule readlines_append)
  moreover have "readlines (head @ [CHR 0x0A]) = [head @ [CHR 0x0A]]"
    unfolding readlines_def using readlines_from_one_line [OF clean, of "[]"] by simp
  moreover have "readlines [CHR 0x0A] = [[CHR 0x0A]]"
    by (simp add: readlines_def)
  ultimately have "readlines (head @ CHR 0x0A # [CHR 0x0A]) = [head @ [CHR 0x0A], [CHR 0x0A]]"
    by simp
  then show ?thesis unfolding title by blast
qed

text \<open>
  The index written for entries that read back, under a \<open>group_id\<close> without a line
  break, is read as those entries.
\<close>

lemma read_written_index:
  assumes "\<forall>e\<in>set es. reads_back e"
    and "CHR 0x0A \<notin> set group_id" and "CHR 0x0D \<notin> set group_id"
  shows "read_existing \<lparr>index_md = Some (index_text group_id es), files = fs\<rparr>
     = (entry_filename ` set es, es)"
proof -
  let ?rows = "concat (map (\<lambda>e. readlines (index_row e)) es)"
  obtain t where t: "index_title group_id = t @ [CHR 0x0A]"
    by (simp add: index_title_def)
  obtain h where h: "index_header = h @ [CHR 0x0A]"
    by (simp add: index_header_def)
  have "readlines (index_text group_id es)
      = readlines (t @ CHR 0x0A # (h @ CHR 0x0A # concat (map index_row es)))"
    by (simp add: index_text_def t h)
  also have "\<dots> = readlines (t @ [CHR 0x0A]) @ readlines (h @ CHR 0x0A # concat (map index_row es))"
    by (rule readlines_append)
  also have "readlines (h @ CHR 0x0A # concat (map index_row es))
      = readlines (h @ [CHR 0x0A]) @ readlines (concat (map index_row es))"
    by (rule readlines_append)
  finally have lines: "readlines (index_text group_id es)
      = readlines (index_title group_id) @ readlines index_header @ ?rows"
    by (simp add: t h readlines_rows)
  from readlines_title [OF assms(2,3)] obtain title
    where title: "readlines (index_title group_id) = [title, [CHR 0x0A]]"
    by blast
  have "read_index False (readlines (index_title group_id) @ readlines index_header @ ?rows)
        ({}, [])
      = read_index (sublist header_marker title \<or> sublist header_marker [CHR 0x0A])
          (readlines index_header @ ?rows) ({}, [])"
    unfolding title by (rule read_index_before_header)
  also have "\<dots> = read_index True ?rows ({}, [])"
    by (rule read_index_header)
  also have "\<dots> = (entry_filename ` set es, es)"
    using assms(1) by (rule read_index_rows)
  finally show ?thesis by (simp add: read_existing_def lines)
qed

subsection \<open>A second run over the same topics\<close>

text \<open>For a timestamp that parses, the file name does not depend on the clock.\<close>

lemma post_filename_parsed:
  assumes "strptime lib time_str fmt_frac \<noteq> None \<or> strptime lib time_str fmt_secs \<noteq> None"
  shows "post_filename lib now time_str author_name = post_filename lib now' time_str author_name"
  using assms by (auto simp: post_filename_def get_filename_time_def split: option.splits)

text \<open>
  When every file gets written, the new entries are those of the topics that have a
  talk and a file name that is not in the index.
\<close>

lemma index_topics_rendered:
  assumes "\<forall>i<length topics. io (idx + i) = Rendered"
  shows "fst (index_topics lib clock io existing_entries idx topics (new_entries, fs))
     = new_entries @ map (\<lambda>(i, t). topic_entry lib clock i t)
         (filter (\<lambda>(i, t). \<not> not_talk (topic_talk t)
              \<and> entry_filename (topic_entry lib clock i t) \<notin> existing_entries)
            (enumerate idx topics))"
  using assms
proof (induction topics arbitrary: idx new_entries fs)
  case Nil
  show ?case by simp
next
  case (Cons t rest)
  let ?filename = "post_filename lib (clock idx 0) (create_time_raw t)
      (author_name_of (topic_talk t))"
  have name: "entry_filename (topic_entry lib clock idx t) = ?filename"
    by (simp add: topic_entry_def entry_filename_def)
  from Cons.prems have "io (idx + 0) = Rendered" by blast
  then have written: "io idx = Rendered" by simp
  have tail: "\<forall>i<length rest. io (Suc idx + i) = Rendered"
  proof (intro allI impI)
    fix i assume "i < length rest"
    then have "Suc i < length (t # rest)" by simp
    with Cons.prems have "io (idx + Suc i) = Rendered" by blast
    then show "io (Suc idx + i) = Rendered" by simp
  qed
  show ?case
  proof (cases "not_talk (topic_talk t) \<or> ?filename \<in> existing_entries")
    case True
    then have "index_topics lib clock io existing_entries idx (t # rest) (new_entries, fs)
        = index_topics lib clock io existing_entries (Suc idx) rest (new_entries, fs)"
      by (rule index_topics_skip)
    with True name Cons.IH [OF tail, of new_entries fs] show ?thesis
      by (auto simp: enumerate_simps)
  next
    case False
    then have talk: "\<not> not_talk (topic_talk t)" and fresh: "?filename \<notin> existing_entries"
      by simp_all
    obtain file_path fs' where made:
      "create_markdown_for_topic lib (clock idx 1) (io idx) fs t = (file_path, fs')"
      by (cases "create_markdown_for_topic lib (clock idx 1) (io idx) fs t")
    have some: "file_path \<noteq> None"
      using made talk written
      by (auto simp: create_markdown_for_topic_def Let_def split: if_splits)
    from index_topics_made [where clock = clock and io = io and idx = idx, OF talk fresh made]
      some
    have "fst (index_topics lib clock io existing_entries idx (t # rest) (new_entries, fs))
        = fst (index_topics lib clock io existing_entries (Suc idx) rest
            (new_entries @ [topic_entry lib clock idx t], fs'))"
      by simp
    with talk fresh name Cons.IH [OF tail, of "new_entries @ [topic_entry lib clock idx t]" fs']
    show ?thesis by (simp add: enumerate_simps)
  qed
qed

text \<open>When every topic is passed over, the loop changes nothing.\<close>

lemma index_topics_all_skipped:
  assumes "\<forall>(i, t)\<in>set (enumerate idx topics). not_talk (topic_talk t)
      \<or> post_filename lib (clock i 0) (create_time_raw t) (author_name_of (topic_talk t))
          \<in> existing_entries"
  shows "index_topics lib clock io existing_entries idx topics (new_entries, fs)
     = (new_entries, fs)"
  using assms
proof (induction topics arbitrary: idx)
  case Nil
  show ?case by simp
next
  case (Cons t rest)
  from Cons.prems have "not_talk (topic_talk t)
      \<or> post_filename lib (clock idx 0) (create_time_raw t) (author_name_of (topic_talk t))
          \<in> existing_entries"
    by (simp add: enumerate_simps)
  then have "index_topics lib clock io existing_entries idx (t # rest) (new_entries, fs)
      = index_topics lib clock io existing_entries (Suc idx) rest (new_entries, fs)"
    by (rule index_topics_skip)
  moreover from Cons.prems
  have "index_topics lib clock io existing_entries (Suc idx) rest (new_entries, fs)
      = (new_entries, fs)"
    by (intro Cons.IH) (simp add: enumerate_simps)
  ultimately show ?case by simp
qed

lemma set_sort_reverse: "set (sort_reverse entries) = set entries"
  by (simp add: sort_reverse_def)

text \<open>
  The Index Merger run twice over the same topics: when the timestamps parse, the files
  of the first run get written, and the rows it wrote read back, the second run finds
  every topic in the index.
\<close>

lemma create_markdown_twice:
  assumes parse: "\<forall>t\<in>set topics. strptime lib (create_time_raw t) fmt_frac \<noteq> None
      \<or> strptime lib (create_time_raw t) fmt_secs \<noteq> None"
    and rendered: "\<forall>i. io1 i = Rendered"
    and run1: "create_markdown lib clock1 io1 group_id dir0 topics = (dir1, new1)"
    and readable: "new1 \<noteq> [] \<longrightarrow> (\<forall>e\<in>set (snd (read_existing dir0) @ new1). reads_back e)"
    and gid: "CHR 0x0A \<notin> set group_id" "CHR 0x0D \<notin> set group_id"
  shows "create_markdown lib clock2 io2 group_id dir1 topics = (dir1, [])"
proof (cases "topics = []")
  case True
  then show ?thesis by (simp add: create_markdown_def)
next
  case False
  obtain ex0 E0 where read0: "read_existing dir0 = (ex0, E0)"
    by (cases "read_existing dir0")
  have names0: "ex0 = entry_filename ` set E0"
    using read0 by (rule read_existing_names)
  obtain found fs1
    where loop1: "index_topics lib clock1 io1 ex0 0 topics ([], files dir0) = (found, fs1)"
    by (cases "index_topics lib clock1 io1 ex0 0 topics ([], files dir0)")
  note result1 = create_markdown_result [OF False read0 loop1, of group_id]
  from result1 run1 have new1: "new1 = found" by (auto split: if_splits)
  have dir1: "dir1 = (if new1 = [] then dir0\<lparr>files := fs1\<rparr>
      else \<lparr>index_md = Some (index_text group_id (sort_reverse (E0 @ new1))), files = fs1\<rparr>)"
    using result1 run1 new1 by (auto split: if_splits)
  let ?keep = "\<lambda>(i, t). \<not> not_talk (topic_talk t)
      \<and> entry_filename (topic_entry lib clock1 i t) \<notin> ex0"
  have "fst (index_topics lib clock1 io1 ex0 0 topics ([], files dir0))
      = [] @ map (\<lambda>(i, t). topic_entry lib clock1 i t) (filter ?keep (enumerate 0 topics))"
    using rendered by (intro index_topics_rendered) simp
  with loop1 new1
  have entries1: "new1 = map (\<lambda>(i, t). topic_entry lib clock1 i t)
      (filter ?keep (enumerate 0 topics))"
    by simp
  obtain ex1 E1 where read1: "read_existing dir1 = (ex1, E1)"
    by (cases "read_existing dir1")
  have names1: "ex0 \<union> entry_filename ` set new1 \<subseteq> ex1"
  proof (cases "new1 = []")
    case True
    with dir1 have "index_md dir1 = index_md dir0" by simp
    then have "read_existing dir1 = read_existing dir0" by (simp add: read_existing_def)
    with read0 read1 True show ?thesis by simp
  next
    case False
    let ?written = "sort_reverse (E0 @ new1)"
    from False readable read0 have "\<forall>e\<in>set ?written. reads_back e"
      by (simp add: set_sort_reverse)
    then have "read_existing \<lparr>index_md = Some (index_text group_id ?written), files = fs1\<rparr>
        = (entry_filename ` set ?written, ?written)"
      using gid by (rule read_written_index)
    moreover from False dir1
    have "dir1 = \<lparr>index_md = Some (index_text group_id ?written), files = fs1\<rparr>"
      by simp
    ultimately have "read_existing dir1 = (entry_filename ` set ?written, ?written)"
      by (simp only:)
    with read1 have "ex1 = entry_filename ` set ?written" by (metis fst_conv)
    with names0 show ?thesis by (auto simp: set_sort_reverse)
  qed
  have skipped: "\<forall>(i, t)\<in>set (enumerate 0 topics). not_talk (topic_talk t)
      \<or> post_filename lib (clock2 i 0) (create_time_raw t) (author_name_of (topic_talk t)) \<in> ex1"
  proof (clarify)
    fix i t
    assume member: "(i, t) \<in> set (enumerate 0 topics)"
      and absent: "post_filename lib (clock2 i 0) (create_time_raw t)
        (author_name_of (topic_talk t)) \<notin> ex1"
    from member have "t \<in> set topics" by (auto simp: in_set_enumerate_eq)
    with parse have "strptime lib (create_time_raw t) fmt_frac \<noteq> None
        \<or> strptime lib (create_time_raw t) fmt_secs \<noteq> None"
      by blast
    then have same: "post_filename lib (clock1 i 0) (create_time_raw t)
        (author_name_of (topic_talk t))
      = post_filename lib (clock2 i 0) (create_time_raw t) (author_name_of (topic_talk t))"
      by (rule post_filename_parsed)
    then have name: "entry_filename (topic_entry lib clock1 i t)
        = post_filename lib (clock2 i 0) (create_time_raw t) (author_name_of (topic_talk t))"
      by (simp add: topic_entry_def entry_filename_def)
    show "not_talk (topic_talk t)"
    proof (rule ccontr)
      assume talk: "\<not> not_talk (topic_talk t)"
      from absent names1 name have "entry_filename (topic_entry lib clock1 i t) \<notin> ex0"
        by auto
      with talk member have "(i, t) \<in> set (filter ?keep (enumerate 0 topics))"
        by simp
      then have "topic_entry lib clock1 i t \<in> set new1"
        unfolding entries1 by force
      then have "entry_filename (topic_entry lib clock1 i t) \<in> ex1"
        using names1 by auto
      with name absent show False by simp
    qed
  qed
  have loop2: "index_topics lib clock2 io2 ex1 0 topics ([], files dir1) = ([], files dir1)"
    using skipped by (rule index_topics_all_skipped)
  from create_markdown_result [OF False read1 loop2, of group_id]
  show ?thesis by simp
qed

text \<open>
  C7, as the code has it. Two runs of the Batch Controller followed by the Index Merger,
  with the same upstream and the same start time, from the directory the first run left:
  the second run adds no entry and leaves the directory, the index file with it, as it
  found it, provided that
  \<^item> the timestamp of every fetched topic parses as a file-name time (otherwise the file
    name is taken from the clock, and differs between the runs),
  \<^item> the first run wrote the file of every topic it tried (a topic whose file fails is
    tried again by the next run), and
  \<^item> the rows of the index the first run wrote read back as the entries they were
    written from.
  The clock and the outcomes of writing may differ between the two runs.
\<close>

theorem second_run_adds_nothing:
  assumes fetched: "get_topics_in_batches lib net total_count batch_size start_time = Inr topics"
    and run1: "fetch_and_index lib net clock1 io1 group_id total_count batch_size start_time dir0
        = Inr (dir1, new1)"
    and parse: "\<forall>t\<in>set topics. strptime lib (create_time_raw t) fmt_frac \<noteq> None
        \<or> strptime lib (create_time_raw t) fmt_secs \<noteq> None"
    and rendered: "\<forall>i. io1 i = Rendered"
    and readable: "new1 \<noteq> [] \<longrightarrow> (\<forall>e\<in>set (snd (read_existing dir0) @ new1). reads_back e)"
    and gid: "CHR 0x0A \<notin> set group_id" "CHR 0x0D \<notin> set group_id"
  shows "fetch_and_index lib net clock2 io2 group_id total_count batch_size start_time dir1
     = Inr (dir1, [])"
proof (cases "topics = []")
  case True
  with fetched show ?thesis by (simp add: fetch_and_index_def)
next
  case False
  with fetched run1 have "create_markdown lib clock1 io1 group_id dir0 topics = (dir1, new1)"
    by (simp add: fetch_and_index_def)
  with parse rendered
  have "create_markdown lib clock2 io2 group_id dir1 topics = (dir1, [])"
    using readable gid by (rule create_markdown_twice)
  with False fetched show ?thesis by (simp add: fetch_and_index_def)
qed

text \<open>
  The archive of the posts of 2 January 2024 and 31 December 2023, fetched one topic at a
  time into an empty directory: the first run writes two files and an index of two rows;
  a second run one second later, in which every write would fail, adds nothing.
\<close>

theorem second_run_adds_nothing_witness:
  "get_topics_in_batches canonical_lib (archive canonical_lib [new_post, old_post]) 3 1 None
     = Inr [new_post, old_post]
   \<and> fetch_and_index canonical_lib (archive canonical_lib [new_post, old_post])
        (\<lambda>i k. ''2024-03-01_10-00-00'') (\<lambda>i. Rendered) ''10086'' 3 1 None
        \<lparr>index_md = None, files = {}\<rparr>
       = Inr (\<lparr>index_md = Some (index_text ''10086''
                  [(''2024-01-02 03:04:05'', ''alice'', ''101'', ''2024-01-02_03-04-05_alice.md''),
                   (''2023-12-31 23:59:59'', ''bob'', ''100'', ''2023-12-31_23-59-59_bob.md'')]),
                files = {''2024-01-02_03-04-05_alice.md'', ''2023-12-31_23-59-59_bob.md''}\<rparr>,
              [(''2024-01-02 03:04:05'', ''alice'', ''101'', ''2024-01-02_03-04-05_alice.md''),
               (''2023-12-31 23:59:59'', ''bob'', ''100'', ''2023-12-31_23-59-59_bob.md'')])
   \<and> fetch_and_index canonical_lib (archive canonical_lib [new_post, old_post])
        (\<lambda>i k. ''2024-03-01_10-00-01'') (\<lambda>i. FailsAtOpen) ''10086'' 3 1 None
        \<lparr>index_md = Some (index_text ''10086''
            [(''2024-01-02 03:04:05'', ''alice'', ''101'', ''2024-01-02_03-04-05_alice.md''),
             (''2023-12-31 23:59:59'', ''bob'', ''100'', ''2023-12-31_23-59-59_bob.md'')]),
          files = {''2024-01-02_03-04-05_alice.md'', ''2023-12-31_23-59-59_bob.md''}\<rparr>
       = Inr (\<lparr>index_md = Some (index_text ''10086''
                  [(''2024-01-02 03:04:05'', ''alice'', ''101'', ''2024-01-02_03-04-05_alice.md''),
                   (''2023-12-31 23:59:59'', ''bob'', ''100'', ''2023-12-31_23-59-59_bob.md'')]),
                files = {''2024-01-02_03-04-05_alice.md'', ''2023-12-31_23-59-59_bob.md''}\<rparr>,
              [])"
proof -
  let ?net = "archive canonical_lib [new_post, old_post]"
  let ?alice = "(''2024-01-02 03:04:05'', ''alice'', ''101'', ''2024-01-02_03-04-05_alice.md'')"
  let ?bob = "(''2023-12-31 23:59:59'', ''bob'', ''100'', ''2023-12-31_23-59-59_bob.md'')"
  let ?dir0 = "\<lparr>index_md = None, files = {}\<rparr>"
  let ?dir1 = "\<lparr>index_md = Some (index_text ''10086'' [?alice, ?bob]),
      files = {''2024-01-02_03-04-05_alice.md'', ''2023-12-31_23-59-59_bob.md''}\<rparr>"
  have fetched: "get_topics_in_batches canonical_lib ?net 3 1 None = Inr [new_post, old_post]"
    by code_simp
  have run1: "fetch_and_index canonical_lib ?net (\<lambda>i k. ''2024-03-01_10-00-00'')
      (\<lambda>i. Rendered) ''10086'' 3 1 None ?dir0 = Inr (?dir1, [?alice, ?bob])"
    by code_simp
  have parse: "\<forall>t\<in>set [new_post, old_post].
      strptime canonical_lib (create_time_raw t) fmt_frac \<noteq> None
      \<or> strptime canonical_lib (create_time_raw t) fmt_secs \<noteq> None"
    by code_simp
  have rendered: "\<forall>i::nat. (\<lambda>i. Rendered) i = Rendered"
    by simp
  have readable: "[?alice, ?bob] \<noteq> []
      \<longrightarrow> (\<forall>e\<in>set (snd (read_existing ?dir0) @ [?alice, ?bob]). reads_back e)"
    by code_simp
  have gid: "CHR 0x0A \<notin> set ''10086''" "CHR 0x0D \<notin> set ''10086''"
    by simp_all
  from fetched run1 parse rendered readable gid
  have "fetch_and_index canonical_lib ?net (\<lambda>i k. ''2024-03-01_10-00-01'')
      (\<lambda>i. FailsAtOpen) ''10086'' 3 1 None ?dir1 = Inr (?dir1, [])"
    by (rule second_run_adds_nothing)
  with fetched run1 show ?thesis by (intro conjI)
qed

text \<open>
  C7 as stated fails for a post whose timestamp does not parse: its file name is the
  time of the run, so a second run one second later, with the same upstream and no start
  time, adds the post again and writes the index again, with two rows for the one post.
\<close>

theorem second_run_counterexample:
  "fetch_and_index canonical_lib (serve [[odd_post]]) (\<lambda>i k. ''2024-03-01_10-00-00'')
       (\<lambda>i. Rendered) ''10086'' 1 1 None \<lparr>index_md = None, files = {}\<rparr>
     = Inr (\<lparr>index_md = Some (index_text ''10086''
                [(''2023-12-31 23:59:59'', ''carol'', ''99'', ''2024-03-01_10-00-00_carol.md'')]),
              files = {''2024-03-01_10-00-00_carol.md''}\<rparr>,
            [(''2023-12-31 23:59:59'', ''carol'', ''99'', ''2024-03-01_10-00-00_carol.md'')])
   \<and> fetch_and_index canonical_lib (serve [[odd_post]]) (\<lambda>i k. ''2024-03-01_10-00-01'')
       (\<lambda>i. Rendered) ''10086'' 1 1 None
       \<lparr>index_md = Some (index_text ''10086''
           [(''2023-12-31 23:59:59'', ''carol'', ''99'', ''2024-03-01_10-00-00_carol.md'')]),
         files = {''2024-03-01_10-00-00_carol.md''}\<rparr>
     = Inr (\<lparr>index_md = Some (index_text ''10086''
                [(''2023-12-31 23:59:59'', ''carol'', ''99'', ''2024-03-01_10-00-00_carol.md''),
                 (''2023-12-31 23:59:59'', ''carol'', ''99'', ''2024-03-01_10-00-01_carol.md'')]),
              files = {''2024-03-01_10-00-00_carol.md'', ''2024-03-01_10-00-01_carol.md''}\<rparr>,
            [(''2023-12-31 23:59:59'', ''carol'', ''99'', ''2024-03-01_10-00-01_carol.md'')])
   \<and> index_text ''10086''
         [(''2023-12-31 23:59:59'', ''carol'', ''99'', ''2024-03-01_10-00-00_carol.md''),
          (''2023-12-31 23:59:59'', ''carol'', ''99'', ''2024-03-01_10-00-01_carol.md'')]
       \<noteq> index_text ''10086''
         [(''2023-12-31 23:59:59'', ''carol'', ''99'', ''2024-03-01_10-00-00_carol.md'')]"
  by code_simp

end
